theory Spec2Isabelle
  imports Complex_Main "HOL-Library.FSet"
begin

section \<open>Data model\<close>

text \<open>
  The module \<^verbatim>\<open>linear_combinations_of_quadratic_integers.py\<close> stores a value as a
  \<^verbatim>\<open>frozendict\<close> from basis keys to coefficients. A basis key is a \<^verbatim>\<open>frozenset\<close> whose
  elements are Python ints (\<open>Prime p\<close>, the factor \<open>sqrt p\<close>) or tuples
  \<^verbatim>\<open>("+\<surd>", x)\<close> (\<open>Nested x\<close>, the factor \<open>sqrt (x + sqrt x)\<close>).
\<close>

datatype factor = Prime int | Nested int

type_synonym key = "factor fset"

text \<open>
  An order on factors (ints before tuples), used only to have one concrete iteration
  order at hand: the ascending one.
\<close>

instantiation factor :: linorder
begin

definition less_eq_factor :: "factor \<Rightarrow> factor \<Rightarrow> bool" where
  "less_eq_factor a b =
     (case (a, b) of
        (Prime p, Prime q) \<Rightarrow> p \<le> q
      | (Prime p, Nested y) \<Rightarrow> True
      | (Nested x, Prime q) \<Rightarrow> False
      | (Nested x, Nested y) \<Rightarrow> x \<le> y)"

definition less_factor :: "factor \<Rightarrow> factor \<Rightarrow> bool" where
  "less_factor a b = (a \<le> b \<and> \<not> b \<le> a)"

instance
proof
  fix x y z :: factor
  show "(x < y) = (x \<le> y \<and> \<not> y \<le> x)"
    by (simp add: less_factor_def)
  show "x \<le> x"
    by (cases x) (simp_all add: less_eq_factor_def)
  show "x \<le> y \<Longrightarrow> y \<le> z \<Longrightarrow> x \<le> z"
    by (cases x; cases y; cases z) (simp_all add: less_eq_factor_def)
  show "x \<le> y \<Longrightarrow> y \<le> x \<Longrightarrow> x = y"
    by (cases x; cases y) (simp_all add: less_eq_factor_def)
  show "x \<le> y \<or> y \<le> x"
    by (cases x; cases y) (auto simp: less_eq_factor_def)
qed

end

text \<open>
  Modelled from the spec: the class \<^verbatim>\<open>mynumbers.Rational\<close> of the coefficients is not
  part of the sources; the spec describes it as an exact rational type with the field
  operations, comparison with 0 and 1 and a text form. It is modelled by \<^typ>\<open>rat\<close>; its
  truth value is \<open>c \<noteq> 0\<close>.

  A \<^verbatim>\<open>frozendict\<close> keeps insertion order, and \<^verbatim>\<open>__str__\<close> reads that order, so the
  coefficient mapping is an association list in insertion order.
\<close>

type_synonym lcoqi = "(key \<times> rat) list"

datatype error = ValueError | TypeError | ZeroDivisionError

text \<open>
  The keys of the dict handed to \<^verbatim>\<open>LCoQI(...)\<close>: an int, a tuple \<^verbatim>\<open>("+\<surd>", x)\<close>, or a
  set of factors.
\<close>

datatype rawspec = RInt int | RNested int | RSet "factor fset"

section \<open>Python dicts and loops\<close>

text \<open>\<^verbatim>\<open>d.get(k, default)\<close> and \<^verbatim>\<open>d[k] = v\<close> on an insertion-ordered dict.\<close>

fun dict_get :: "('k \<times> 'v) list \<Rightarrow> 'k \<Rightarrow> 'v \<Rightarrow> 'v" where
  "dict_get [] k d = d"
| "dict_get ((k', v) # xs) k d = (if k' = k then v else dict_get xs k d)"

fun dict_set :: "('k \<times> 'v) list \<Rightarrow> 'k \<Rightarrow> 'v \<Rightarrow> ('k \<times> 'v) list" where
  "dict_set [] k v = [(k, v)]"
| "dict_set ((k', v') # xs) k v =
     (if k' = k then (k', v) # xs else (k', v') # dict_set xs k v)"

text \<open>A dict display or comprehension: the items are stored one after the other.\<close>

definition dict_of :: "('k \<times> 'v) list \<Rightarrow> ('k \<times> 'v) list" where
  "dict_of items = fold (\<lambda>(k, v) d. dict_set d k v) items []"

text \<open>A \<^verbatim>\<open>for\<close> loop over a list whose body may raise: the first error ends the loop.\<close>

fun foldM :: "('a \<Rightarrow> 's \<Rightarrow> error + 's) \<Rightarrow> 'a list \<Rightarrow> 's \<Rightarrow> error + 's" where
  "foldM f [] s = Inr s"
| "foldM f (x # xs) s = (case f x s of Inl e \<Rightarrow> Inl e | Inr s' \<Rightarrow> foldM f xs s')"

lemma foldM_cong [fundef_cong]:
  "xs = ys \<Longrightarrow> s = t \<Longrightarrow> (\<And>x u. x \<in> set ys \<Longrightarrow> f x u = g x u)
    \<Longrightarrow> foldM f xs s = foldM g ys t"
proof (induction ys arbitrary: xs s t)
  case Nil
  then show ?case by simp
next
  case (Cons y ys)
  then show ?case by (auto split: sum.splits)
qed

lemma foldM_cong2 [fundef_cong]:
  "xs = ys \<Longrightarrow> (\<And>x u. x \<in> set ys \<Longrightarrow> f x u = g x u) \<Longrightarrow> foldM f xs = foldM g ys"
  by (rule ext) (rule foldM_cong, simp_all)

section \<open>Iteration order of a frozenset\<close>

text \<open>
  Python does not fix the order in which a \<^verbatim>\<open>frozenset\<close> is iterated (the hash of the
  string \<^verbatim>\<open>"+\<surd>"\<close> changes from run to run). The order is a parameter of the model: any
  function that lists each finite set once.
\<close>

typedef iter_order = "{it :: factor fset \<Rightarrow> factor list. \<forall>K. fset_of_list (it K) = K \<and> distinct (it K)}"
proof
  show "sorted_list_of_fset \<in> {it :: factor fset \<Rightarrow> factor list. \<forall>K. fset_of_list (it K) = K \<and> distinct (it K)}"
  proof (simp, rule allI)
    fix K :: "factor fset"
    have "distinct (sorted_list_of_set (fset K))" by simp
    then show "distinct (sorted_list_of_fset K)"
      by (simp add: sorted_list_of_fset.rep_eq)
  qed
qed

definition iter :: "iter_order \<Rightarrow> key \<Rightarrow> factor list" where
  "iter ord K = Rep_iter_order ord K"

definition ascending :: iter_order where
  "ascending = Abs_iter_order sorted_list_of_fset"

section \<open>normalize\_root\<close>

text \<open>
  \<^verbatim>\<open>math.isqrt\<close> is the floor of the square root and raises \<^verbatim>\<open>ValueError\<close> on a
  negative argument.
\<close>

primrec isqrt_nat :: "nat \<Rightarrow> nat" where
  "isqrt_nat 0 = 0"
| "isqrt_nat (Suc n) =
     (let r = isqrt_nat n in if (r + 1) * (r + 1) \<le> Suc n then r + 1 else r)"

definition isqrt :: "int \<Rightarrow> error + int" where
  "isqrt n = (if n < 0 then Inl ValueError else Inr (int (isqrt_nat (nat n))))"

text \<open>
  The loop \<^verbatim>\<open>for p in range(2, math.isqrt(x) + 1)\<close>: the range is computed once, from
  the argument; \<open>x\<close> is divided as the loop runs.
\<close>

fun trial_division :: "int list \<Rightarrow> int \<Rightarrow> int list \<Rightarrow> error + (int \<times> int list)" where
  "trial_division [] x factors = Inr (x, factors)"
| "trial_division (p # ps) x factors =
     (if x mod p = 0 then
        (let x' = x div p in
         if x' mod p = 0 then Inl ValueError
         else trial_division ps x' (factors @ [p]))
      else trial_division ps x factors)"

definition normalize_root :: "rawspec \<Rightarrow> error + key" where
  "normalize_root rt =
     (case rt of
        RSet s \<Rightarrow> Inr s
      | RNested x \<Rightarrow> Inr {|Nested x|}
      | RInt n \<Rightarrow>
          (case isqrt n of
             Inl e \<Rightarrow> Inl e
           | Inr r \<Rightarrow>
               (case trial_division [2..r] n [] of
                  Inl e \<Rightarrow> Inl e
                | Inr (x, factors) \<Rightarrow>
                    Inr (fset_of_list (map Prime (if x \<noteq> 1 then factors @ [x] else factors))))))"

text \<open>
  Primality and square-freeness (no square of an integer from 2 on divides \<open>x\<close>), to state
  which integers the normaliser accepts.
\<close>

definition is_prime :: "int \<Rightarrow> bool" where
  "is_prime p = (1 < p \<and> (\<forall>d \<in> {2..<p}. \<not> d dvd p))"

definition square_free :: "int \<Rightarrow> bool" where
  "square_free x = (\<forall>p \<in> {2..x}. \<not> p * p dvd x)"

section \<open>The class LCoQI\<close>

text \<open>
  \<^verbatim>\<open>__init__\<close>: a dict comprehension that normalises every key and stores the
  coefficient it was given.
\<close>

definition LCoQI :: "(rawspec \<times> rat) list \<Rightarrow> error + lcoqi" where
  "LCoQI coeffs =
     foldM (\<lambda>(r, c) d. case normalize_root r of Inl e \<Rightarrow> Inl e | Inr k \<Rightarrow> Inr (dict_set d k c))
       coeffs []"

text \<open>
  The constructor on a dict display or comprehension whose keys are frozensets already
  (every call inside the class but two): \<^verbatim>\<open>normalize_root\<close> returns such a key as it
  is and cannot raise, and storing the items a second time changes nothing (lemma
  \<open>LCoQI_on_frozensets\<close> below).
\<close>

definition frozen :: "(key \<times> rat) list \<Rightarrow> lcoqi" where
  "frozen items = dict_of items"

text \<open>\<^verbatim>\<open>LCoQI({1: 1})\<close>, the rational unit.\<close>

definition unit :: lcoqi where
  "unit = [({||}, 1)]"

text \<open>\<^verbatim>\<open>__add__\<close> and \<^verbatim>\<open>__sub__\<close>.\<close>

definition add :: "lcoqi \<Rightarrow> lcoqi \<Rightarrow> lcoqi" where
  "add a b =
     frozen (filter (\<lambda>(rt, coef). coef \<noteq> 0)
       (fold (\<lambda>(rt, coef) result. dict_set result rt (dict_get result rt 0 + coef)) b a))"

definition sub :: "lcoqi \<Rightarrow> lcoqi \<Rightarrow> lcoqi" where
  "sub a b =
     frozen (filter (\<lambda>(rt, coef). coef \<noteq> 0)
       (fold (\<lambda>(rt, coef) result. dict_set result rt (dict_get result rt 0 - coef)) b a))"

text \<open>
  \<^verbatim>\<open>__mul__\<close>. The factor deferred for a \<^verbatim>\<open>("+\<surd>", x)\<close> found in both keys is
  \<^verbatim>\<open>LCoQI({1: x, x: 1})\<close>; the dict display stores its two items in turn.
\<close>

definition additional_factor :: "int \<Rightarrow> error + lcoqi" where
  "additional_factor x = LCoQI (dict_of [(RInt 1, of_int x), (RInt x, 1)])"

text \<open>The loop over \<^verbatim>\<open>root1.intersection(root2)\<close>, with its \<^verbatim>\<open>match\<close>.\<close>

fun collect :: "factor list \<Rightarrow> rat \<Rightarrow> lcoqi list \<Rightarrow> error + (rat \<times> lcoqi list)" where
  "collect [] coef additional_factors = Inr (coef, additional_factors)"
| "collect (Prime natural # rs) coef additional_factors =
     collect rs (coef * of_int natural) additional_factors"
| "collect (Nested x # rs) coef additional_factors =
     (case additional_factor x of
        Inl e \<Rightarrow> Inl e
      | Inr f \<Rightarrow> collect rs coef (additional_factors @ [f]))"

text \<open>
  What that loop meets in a list of factors, to state its outcome: the arguments of the
  tuples, in the order of the list, and the product of the ints.
\<close>

fun nested_of :: "factor list \<Rightarrow> int list" where
  "nested_of [] = []"
| "nested_of (Prime p # rs) = nested_of rs"
| "nested_of (Nested x # rs) = x # nested_of rs"

fun prime_product :: "factor list \<Rightarrow> int" where
  "prime_product [] = 1"
| "prime_product (Prime p # rs) = p * prime_product rs"
| "prime_product (Nested x # rs) = prime_product rs"

definition symmetric_difference :: "key \<Rightarrow> key \<Rightarrow> key" where
  "symmetric_difference r1 r2 = (r1 |-| r2) |\<union>| (r2 |-| r1)"

text \<open>Whether some key holds a tuple; the measure of the recursion below.\<close>

definition has_nested :: "lcoqi \<Rightarrow> bool" where
  "has_nested a = (\<exists>x. \<exists>t \<in> set a. Nested x |\<in>| fst t)"

text \<open>
  The method itself: the expansion over all pairs of terms when an operand is not a single
  term, the product of two single terms otherwise. It calls itself on single terms and on
  the deferred factors; that this ends is shown after the definitions.
\<close>

function mul :: "iter_order \<Rightarrow> lcoqi \<Rightarrow> lcoqi \<Rightarrow> error + lcoqi" where
  "mul ord a b =
     (if \<not> (length a = 1 \<and> length b = 1) then
        foldM (\<lambda>(root1, coef1) result.
            foldM (\<lambda>(root2, coef2) result.
                case mul ord (frozen [(root1, coef1)]) (frozen [(root2, coef2)]) of
                  Inl e \<Rightarrow> Inl e
                | Inr t \<Rightarrow> Inr (add result t))
              b result)
          a (frozen [])
      else
        (case (hd a, hd b) of
           ((root1, coef1), (root2, coef2)) \<Rightarrow>
             (case collect (iter ord (root1 |\<inter>| root2)) (coef1 * coef2) [] of
                Inl e \<Rightarrow> Inl e
              | Inr (coef, additional_factors) \<Rightarrow>
                  foldM (\<lambda>factor result. mul ord result factor) additional_factors
                    (frozen [(symmetric_difference root1 root2, coef)]))))"
  by pat_completeness auto

text \<open>
  Modelled from the spec: the division of \<^verbatim>\<open>mynumbers.Rational\<close>, which \<^verbatim>\<open>inverse\<close>
  uses in its first branch, is not part of the sources; the spec asks for exact field
  division, and a zero divisor is taken to raise \<^verbatim>\<open>ZeroDivisionError\<close>, as Python's own
  number types do.
\<close>

definition rational_div :: "rat \<Rightarrow> rat \<Rightarrow> error + rat" where
  "rational_div p q = (if q = 0 then Inl ZeroDivisionError else Inr (p / q))"

text \<open>
  \<^verbatim>\<open>reduce(lambda x, y: x | y, denominator.coeffs)\<close>: the union of the keys, and
  \<^verbatim>\<open>TypeError\<close> when there is none (\<^verbatim>\<open>reduce\<close> has no initial value).
\<close>

fun reduce_union :: "key list \<Rightarrow> error + key" where
  "reduce_union [] = Inl TypeError"
| "reduce_union (k # ks) = Inr (fold (\<lambda>y x. x |\<union>| y) ks k)"

text \<open>The body of the loop: the complement for one factor, then the two products.\<close>

definition complement :: "factor \<Rightarrow> lcoqi \<Rightarrow> lcoqi" where
  "complement r denominator =
     frozen (map (\<lambda>(roots, coef). (roots, if r |\<in>| roots then - coef else coef)) denominator)"

definition conjugate_step :: "iter_order \<Rightarrow> factor \<Rightarrow> lcoqi \<times> lcoqi \<Rightarrow> error + (lcoqi \<times> lcoqi)" where
  "conjugate_step ord r state =
     (case state of (numerator, denominator) \<Rightarrow>
        (let c = complement r denominator in
         case mul ord denominator c of
           Inl e \<Rightarrow> Inl e
         | Inr denominator' \<Rightarrow>
             (case mul ord numerator c of
                Inl e \<Rightarrow> Inl e
              | Inr numerator' \<Rightarrow> Inr (numerator', denominator'))))"

text \<open>
  \<^verbatim>\<open>inverse\<close> ends with \<^verbatim>\<open>numerator / denominator\<close>, and \<^verbatim>\<open>__truediv__\<close> calls
  \<^verbatim>\<open>inverse\<close> again; nothing in the code bounds that recursion, so a call that does not
  return is the value \<open>None\<close>. The body of \<^verbatim>\<open>__truediv__\<close> stands in place of the call;
  \<open>truediv\<close> below is the method itself.
\<close>

partial_function (option) inverse_lcoqi :: "iter_order \<Rightarrow> lcoqi \<Rightarrow> (error + lcoqi) option" where
  "inverse_lcoqi ord a =
     (if length a = 1 \<and> {||} \<in> fst ` set a then
        Some (case rational_div 1 (dict_get a {||} 0) of
                Inl e \<Rightarrow> Inl e
              | Inr q \<Rightarrow> LCoQI [(RInt 1, q)])
      else
        (case reduce_union (map fst a) of
           Inl e \<Rightarrow> Some (Inl e)
         | Inr roots \<Rightarrow>
             (case foldM (conjugate_step ord) (iter ord roots) (unit, a) of
                Inl e \<Rightarrow> Some (Inl e)
              | Inr (numerator, denominator) \<Rightarrow>
                  Option.bind (inverse_lcoqi ord denominator)
                    (\<lambda>r. Some (case r of Inl e \<Rightarrow> Inl e | Inr i \<Rightarrow> mul ord numerator i)))))"

definition truediv :: "iter_order \<Rightarrow> lcoqi \<Rightarrow> lcoqi \<Rightarrow> (error + lcoqi) option" where
  "truediv ord a b =
     Option.bind (inverse_lcoqi ord b)
       (\<lambda>r. Some (case r of Inl e \<Rightarrow> Inl e | Inr i \<Rightarrow> mul ord a i))"

text \<open>\<^verbatim>\<open>__pow__\<close>: the \<^verbatim>\<open>while n\<close> loop, then the inverse for a negative exponent.\<close>

function pow_loop :: "iter_order \<Rightarrow> nat \<Rightarrow> lcoqi \<Rightarrow> lcoqi \<Rightarrow> error + lcoqi" where
  "pow_loop ord n result factor =
     (if n = 0 then Inr result
      else
        (case (if n mod 2 = 1 then mul ord result factor else Inr result) of
           Inl e \<Rightarrow> Inl e
         | Inr result' \<Rightarrow>
             (case mul ord factor factor of
                Inl e \<Rightarrow> Inl e
              | Inr factor' \<Rightarrow> pow_loop ord (n div 2) result' factor')))"
  by pat_completeness auto
termination
  by (relation "measure (\<lambda>(ord, n, result, factor). n)") auto

declare pow_loop.simps [simp del]

definition pow :: "iter_order \<Rightarrow> lcoqi \<Rightarrow> int \<Rightarrow> (error + lcoqi) option" where
  "pow ord a exponent =
     (case pow_loop ord (nat \<bar>exponent\<bar>) unit a of
        Inl e \<Rightarrow> Some (Inl e)
      | Inr result \<Rightarrow> if exponent \<ge> 0 then Some (Inr result) else inverse_lcoqi ord result)"

section \<open>Rendering\<close>

text \<open>
  Python strings are modelled as UTF-8 bytes; the sign \<^verbatim>\<open>\<surd>\<close> (U+221A) is three bytes.
  \<^verbatim>\<open>str\<close> of an int is its decimal form.
\<close>

definition sqrt_sign :: string where
  "sqrt_sign = [char_of (0xE2 :: nat), char_of (0x88 :: nat), char_of (0x9A :: nat)]"

function str_nat :: "nat \<Rightarrow> string" where
  "str_nat n =
     (if n < 10 then [char_of (48 + n)]
      else str_nat (n div 10) @ [char_of (48 + n mod 10)])"
  by pat_completeness auto
termination
  by (relation "measure id") auto

declare str_nat.simps [simp del]

definition str_int :: "int \<Rightarrow> string" where
  "str_int i = (if i < 0 then CHR ''-'' # str_nat (nat (- i)) else str_nat (nat i))"

text \<open>\<^verbatim>\<open>sep.join(items)\<close>.\<close>

fun join :: "string \<Rightarrow> string list \<Rightarrow> string" where
  "join sep [] = []"
| "join sep [x] = x"
| "join sep (x # y # ys) = x @ sep @ join sep (y # ys)"

text \<open>\<^verbatim>\<open>root_to_str\<close>: the loop over the key, then the token for the product of the ints.\<close>

fun root_to_str_loop :: "factor list \<Rightarrow> string list \<Rightarrow> int \<Rightarrow> string list \<times> int" where
  "root_to_str_loop [] result number = (result, number)"
| "root_to_str_loop (Prime x # roots) result number =
     root_to_str_loop roots result (number * x)"
| "root_to_str_loop (Nested x # roots) result number =
     root_to_str_loop roots
       (result @ [sqrt_sign @ ''('' @ str_int x @ ''+'' @ sqrt_sign @ str_int x @ '')''])
       number"

definition root_to_str :: "iter_order \<Rightarrow> key \<Rightarrow> string" where
  "root_to_str ord roots =
     (case root_to_str_loop (iter ord roots) [] 1 of
        (result, number) \<Rightarrow>
          (let result = (if number \<noteq> 1 then result @ [sqrt_sign @ str_int number] else result)
           in if result \<noteq> [] then concat result else []))"

text \<open>
  \<^verbatim>\<open>__str__\<close>. The text of one term is
  \<^verbatim>\<open>str(coef) + root if coef != 1 else root or "1"\<close>; \<^verbatim>\<open>str(coef)\<close> belongs to the
  external class and is a parameter.
\<close>

definition str_term :: "(rat \<Rightarrow> string) \<Rightarrow> iter_order \<Rightarrow> key \<times> rat \<Rightarrow> string" where
  "str_term str_rational ord t =
     (case t of (roots, coef) \<Rightarrow>
        (let r = root_to_str ord roots
         in if coef \<noteq> 1 then str_rational coef @ r else if r \<noteq> [] then r else ''1''))"

definition str_lcoqi :: "(rat \<Rightarrow> string) \<Rightarrow> iter_order \<Rightarrow> lcoqi \<Rightarrow> string" where
  "str_lcoqi str_rational ord a =
     (let terms = map (str_term str_rational ord) a
      in if terms \<noteq> [] then join '' + '' terms else ''0'')"

section \<open>Objects and the operator ==\<close>

text \<open>
  The class defines neither \<^verbatim>\<open>__eq__\<close> nor \<^verbatim>\<open>__hash__\<close>, so \<^verbatim>\<open>==\<close> on two values is
  the comparison Python gives every object: identity. An object is its identity and its
  only attribute; the heap lists the objects made so far, and a constructor call adds one
  with the next free identity. The arithmetic above works on the attribute alone.
\<close>

record obj =
  ident :: nat
  coeffs :: lcoqi

type_synonym heap = "obj list"

definition new_obj :: "heap \<Rightarrow> lcoqi \<Rightarrow> obj \<times> heap" where
  "new_obj h v =
     (\<lparr>ident = length h, coeffs = v\<rparr>, h @ [\<lparr>ident = length h, coeffs = v\<rparr>])"

definition py_eq :: "obj \<Rightarrow> obj \<Rightarrow> bool" where
  "py_eq x y = (ident x = ident y)"

text \<open>The heaps a program can build: constructor calls, one after the other.\<close>

inductive reachable :: "heap \<Rightarrow> bool" where
  start: "reachable []"
| alloc: "reachable h \<Longrightarrow> reachable (snd (new_obj h v))"

section \<open>The invariant on stored coefficients\<close>

text \<open>
  No stored coefficient is zero; and no key holds the int 0 or the tuple \<^verbatim>\<open>("+\<surd>", 0)\<close>
  (a prime and the argument of a nested radical are positive).
\<close>

definition no_zero :: "lcoqi \<Rightarrow> bool" where
  "no_zero a = (\<forall>t \<in> set a. snd t \<noteq> 0)"

definition factors_nonzero :: "lcoqi \<Rightarrow> bool" where
  "factors_nonzero a = (\<forall>t \<in> set a. Prime 0 |\<notin>| fst t \<and> Nested 0 |\<notin>| fst t)"

definition canonical :: "lcoqi \<Rightarrow> bool" where
  "canonical a = (no_zero a \<and> factors_nonzero a)"

section \<open>Termination of multiplication\<close>

text \<open>
  \<^verbatim>\<open>__mul__\<close> ends because a deferred factor has no tuple in its keys (its keys come
  from ints), so a product with it defers nothing: \<open>has_nested\<close> of the right operand,
  then the shape of the call, decrease.
\<close>

lemma iter_set: "fset_of_list (iter ord K) = K"
  using Rep_iter_order [of ord] by (simp add: iter_def)

lemma iter_distinct: "distinct (iter ord K)"
  using Rep_iter_order [of ord] by (simp add: iter_def)

lemma iter_mem: "x \<in> set (iter ord K) \<longleftrightarrow> x |\<in>| K"
  using iter_set [of ord K] by (metis fset_of_list_elem)

lemma frozen_single [simp]: "frozen [(k, c)] = [(k, c)]"
  by (simp add: frozen_def dict_of_def)

lemma frozen_empty [simp]: "frozen [] = []"
  by (simp add: frozen_def dict_of_def)

lemma map_fst_dict_set:
  "map fst (dict_set d k v) = (if k \<in> set (map fst d) then map fst d else map fst d @ [k])"
proof (induction d)
  case Nil
  then show ?case by simp
next
  case (Cons t d)
  obtain k' v' where t: "t = (k', v')" by (cases t)
  show ?case using Cons.IH by (simp add: t)
qed

lemma keys_dict_set: "fst ` set (dict_set d k v) = insert k (fst ` set d)"
  using arg_cong [OF map_fst_dict_set [of d k v], of set] by (auto split: if_splits)

lemma has_nested_keys: "has_nested a \<longleftrightarrow> (\<exists>K \<in> fst ` set a. \<exists>x. Nested x |\<in>| K)"
  by (auto simp: has_nested_def)

lemma normalize_root_RInt_no_nested: "normalize_root (RInt n) = Inr K \<Longrightarrow> Nested x |\<notin>| K"
  by (auto simp: normalize_root_def split: sum.splits prod.splits if_splits)

lemma LCoQI_loop_no_nested:
  assumes "\<forall>t \<in> set raw. \<exists>n. fst t = RInt n"
    and "foldM (\<lambda>(r, c) d. case normalize_root r of Inl e \<Rightarrow> Inl e | Inr k \<Rightarrow> Inr (dict_set d k c)) raw d = Inr v"
    and "\<not> has_nested d"
  shows "\<not> has_nested v"
  using assms
proof (induction raw arbitrary: d)
  case Nil
  then show ?case by simp
next
  case (Cons t raw)
  obtain r c where t: "t = (r, c)" by (cases t)
  from Cons.prems(1) t obtain n where r: "r = RInt n" by auto
  from Cons.prems(2) t obtain k where k: "normalize_root r = Inr k"
    and rest: "foldM (\<lambda>(r, c) d. case normalize_root r of Inl e \<Rightarrow> Inl e | Inr k \<Rightarrow> Inr (dict_set d k c)) raw (dict_set d k c) = Inr v"
    by (auto split: sum.splits)
  have "\<not> has_nested (dict_set d k c)"
    using Cons.prems(3) normalize_root_RInt_no_nested [of n k] k r
    by (auto simp: has_nested_keys keys_dict_set)
  with Cons.IH [OF _ rest] Cons.prems(1) show ?case by simp
qed

lemma additional_factor_no_nested: "additional_factor x = Inr f \<Longrightarrow> \<not> has_nested f"
  unfolding additional_factor_def LCoQI_def
  by (rule LCoQI_loop_no_nested [where d = "[]"]) (auto simp: dict_of_def has_nested_def)

lemma collect_adds:
  "collect rs coef adds0 = Inr (coef', adds) \<Longrightarrow> f \<in> set adds \<Longrightarrow>
     f \<in> set adds0 \<or> (\<exists>x. Nested x \<in> set rs \<and> additional_factor x = Inr f)"
proof (induction rs coef adds0 rule: collect.induct)
  case (1 coef additional_factors)
  then show ?case by simp
next
  case (2 natural rs coef additional_factors)
  then show ?case by auto
next
  case (3 x rs coef additional_factors)
  then show ?case by (auto split: sum.splits)
qed

termination mul
proof (relation "measures [\<lambda>(ord, a, b). if has_nested b then 1 else 0,
                           \<lambda>(ord, a, b). if length a = 1 \<and> length b = 1 then 0 else 1]",
       goal_cases)
  case 1
  then show ?case by simp
next
  case (2 ord a b x u xa y xb ua xc ya xd)
  then have "has_nested [(xc, ya)] \<longrightarrow> has_nested b"
    by (auto simp: has_nested_def)
  with 2 show ?case by auto
next
  case (3 ord a b x y xa ya xb yb ba xc yc xd u)
  from 3 have adds: "collect (iter ord (xa |\<inter>| xb)) (ya * yb) [] = Inr (xc, yc)" by simp
  from collect_adds [OF adds \<open>xd \<in> set yc\<close>]
  obtain z where z: "Nested z \<in> set (iter ord (xa |\<inter>| xb))" "additional_factor z = Inr xd"
    by auto
  from z(1) have "Nested z |\<in>| xb" by (simp add: iter_mem)
  moreover from 3 have "hd b = (xb, yb)" "length b = 1" by auto
  ultimately have "has_nested b"
    by (cases b) (auto simp: has_nested_def)
  moreover have "\<not> has_nested xd" using z(2) by (rule additional_factor_no_nested)
  ultimately show ?case by simp
qed

declare mul.simps [simp del]

section \<open>Evaluation rules\<close>

lemma iter_empty [simp]: "iter ord {||} = []"
  using iter_set [of ord "{||}"] by (cases "iter ord {||}") auto

lemma iter_single [simp]: "iter ord {|x|} = [x]"
proof -
  have s: "set (iter ord {|x|}) = {x}"
    using iter_mem [of _ ord "{|x|}"] by auto
  have d: "distinct (iter ord {|x|})" by (rule iter_distinct)
  show ?thesis
  proof (cases "iter ord {|x|}")
    case Nil
    with s show ?thesis by simp
  next
    case (Cons y ys)
    with s d have "y = x" "set ys \<subseteq> {x}" "y \<notin> set ys" by auto
    then have "ys = []" by (cases ys) auto
    with Cons \<open>y = x\<close> show ?thesis by simp
  qed
qed

lemma iter_ascending: "iter ascending K = sorted_list_of_fset K"
proof -
  have "distinct (sorted_list_of_fset K)" for K :: "factor fset"
    by (simp add: sorted_list_of_fset.rep_eq)
  then have "sorted_list_of_fset \<in>
      {it :: factor fset \<Rightarrow> factor list. \<forall>K. fset_of_list (it K) = K \<and> distinct (it K)}"
    by simp
  then show ?thesis by (simp add: iter_def ascending_def Abs_iter_order_inverse)
qed

lemma mul_general:
  "\<not> (length a = 1 \<and> length b = 1) \<Longrightarrow>
   mul ord a b =
     foldM (\<lambda>(root1, coef1) result.
            foldM (\<lambda>(root2, coef2) result.
                case mul ord [(root1, coef1)] [(root2, coef2)] of
                  Inl e \<Rightarrow> Inl e
                | Inr t \<Rightarrow> Inr (add result t))
              b result)
          a []"
  by (subst mul.simps) simp

lemma mul_single:
  "mul ord [(root1, coef1)] [(root2, coef2)] =
     (case collect (iter ord (root1 |\<inter>| root2)) (coef1 * coef2) [] of
        Inl e \<Rightarrow> Inl e
      | Inr (coef, additional_factors) \<Rightarrow>
          foldM (\<lambda>factor result. mul ord result factor) additional_factors
            [(symmetric_difference root1 root2, coef)])"
  by (subst mul.simps) (simp split: sum.splits prod.splits)

lemma key_eq_finsert: "finsert a A = B \<longleftrightarrow> a |\<in>| B \<and> A |-| {|a|} = B |-| {|a|}"
  by auto

lemma key_eq_fempty: "{||} = finsert a A \<longleftrightarrow> False" "finsert a A = {||} \<longleftrightarrow> False"
  by auto

lemmas key_simps = key_eq_finsert key_eq_fempty finsert_fminus_if symmetric_difference_def

lemma normalize_root_one: "normalize_root (RInt 1) = Inr {||}"
  by code_simp

lemma unit_constructed: "LCoQI [(RInt 1, 1)] = Inr unit"
  by (simp add: LCoQI_def normalize_root_one unit_def)

lemma additional_factor_1: "additional_factor 1 = Inr [({||}, 1)]"
  by code_simp

lemma additional_factor_2: "additional_factor 2 = Inr [({||}, 2), ({|Prime 2|}, 1)]"
  by code_simp

lemma additional_factor_3: "additional_factor 3 = Inr [({||}, 3), ({|Prime 3|}, 1)]"
  by code_simp

lemmas eval_simps = conjugate_step_def complement_def mul_general mul_single key_simps add_def
  frozen_def dict_of_def unit_def

lemma inverse_empty: "inverse_lcoqi ord [] = Some (Inl TypeError)"
  by (subst inverse_lcoqi.simps) simp

lemma nested_one_step:
  "conjugate_step ord (Nested 1) (unit, [({|Nested 1|}, 1), ({||}, - 1)])
     = Inr ([({|Nested 1|}, - 1), ({||}, - 1)], [])"
  by (simp add: eval_simps additional_factor_1)

lemma nested_one_inverse:
  "inverse_lcoqi ord [({|Nested 1|}, 1), ({||}, - 1)] = Some (Inl TypeError)"
  by (subst inverse_lcoqi.simps) (simp add: nested_one_step inverse_empty)

lemma pow_loop_0: "pow_loop ord 0 result factor = Inr result"
  by (subst pow_loop.simps) simp

lemma pow_loop_1:
  "pow_loop ord (Suc 0) result factor =
     (case mul ord result factor of
        Inl e \<Rightarrow> Inl e
      | Inr result' \<Rightarrow> (case mul ord factor factor of Inl e \<Rightarrow> Inl e | Inr factor' \<Rightarrow> Inr result'))"
  by (subst pow_loop.simps) (simp add: pow_loop_0 split: sum.splits)

section \<open>The constructor on frozenset keys\<close>

lemma dict_set_fresh: "k \<notin> fst ` set d \<Longrightarrow> dict_set d k v = d @ [(k, v)]"
  by (induction d) auto

lemma dict_of_fold_distinct:
  "distinct (map fst (d @ xs)) \<Longrightarrow> fold (\<lambda>(k, v) d. dict_set d k v) xs d = d @ xs"
proof (induction xs arbitrary: d)
  case Nil
  then show ?case by simp
next
  case (Cons t xs)
  obtain k v where t: "t = (k, v)" by (cases t)
  from Cons.prems t have "k \<notin> fst ` set d" by auto
  then have s: "dict_set d k v = d @ [(k, v)]" by (rule dict_set_fresh)
  from Cons.prems t have "distinct (map fst ((d @ [(k, v)]) @ xs))" by simp
  from Cons.IH [OF this] s show ?case by (simp add: t)
qed

lemma dict_of_distinct: "distinct (map fst xs) \<Longrightarrow> dict_of xs = xs"
  using dict_of_fold_distinct [of "[]" xs] by (simp add: dict_of_def)

lemma distinct_dict_of: "distinct (map fst (dict_of xs))"
proof -
  have "distinct (map fst d) \<Longrightarrow> distinct (map fst (fold (\<lambda>(k, v) d. dict_set d k v) xs d))"
    for d :: "('a \<times> 'b) list"
  proof (induction xs arbitrary: d)
    case Nil
    then show ?case by simp
  next
    case (Cons t xs)
    obtain k v where t: "t = (k, v)" by (cases t)
    have "distinct (map fst (dict_set d k v))" using Cons.prems by (simp add: map_fst_dict_set)
    from Cons.IH [OF this] show ?case by (simp add: t)
  qed
  from this [of "[]"] show ?thesis by (simp add: dict_of_def)
qed

lemma normalize_root_frozenset: "normalize_root (RSet k) = Inr k"
  by (simp add: normalize_root_def)

lemma LCoQI_loop_frozensets:
  "foldM (\<lambda>(r, c) d. case normalize_root r of Inl e \<Rightarrow> Inl e | Inr k \<Rightarrow> Inr (dict_set d k c))
     (map (\<lambda>(k, c). (RSet k, c)) xs) d
   = Inr (fold (\<lambda>(k, v) d. dict_set d k v) xs d)"
proof (induction xs arbitrary: d)
  case Nil
  then show ?case by simp
next
  case (Cons t xs)
  obtain k v where t: "t = (k, v)" by (cases t)
  show ?case by (simp add: t Cons.IH normalize_root_frozenset)
qed

lemma LCoQI_on_frozensets: "LCoQI (map (\<lambda>(k, c). (RSet k, c)) (dict_of xs)) = Inr (frozen xs)"
proof -
  have "LCoQI (map (\<lambda>(k, c). (RSet k, c)) (dict_of xs)) = Inr (dict_of (dict_of xs))"
    by (simp add: LCoQI_def LCoQI_loop_frozensets dict_of_def)
  then show ?thesis by (simp add: frozen_def dict_of_distinct [OF distinct_dict_of])
qed

section \<open>The normaliser on integers\<close>

lemma isqrt_nat_bounds: "isqrt_nat n * isqrt_nat n \<le> n \<and> n < (isqrt_nat n + 1) * (isqrt_nat n + 1)"
proof (induction n)
  case 0
  then show ?case by simp
next
  case (Suc n)
  then show ?case by (auto simp: Let_def)
qed

lemma isqrt_ge:
  assumes "0 \<le> p" and "p * p \<le> n"
  shows "isqrt n = Inr (int (isqrt_nat (nat n))) \<and> p \<le> int (isqrt_nat (nat n))"
proof -
  from assms have n: "0 \<le> n" by (meson mult_nonneg_nonneg order_trans)
  let ?r = "isqrt_nat (nat n)"
  have "nat n < (?r + 1) * (?r + 1)" using isqrt_nat_bounds by blast
  then have "int (nat n) < int ((?r + 1) * (?r + 1))" by (simp only: of_nat_less_iff)
  then have up: "n < (int ?r + 1) * (int ?r + 1)" using n by (simp add: algebra_simps)
  have "p \<le> int ?r"
  proof (rule ccontr)
    assume "\<not> p \<le> int ?r"
    then have "int ?r + 1 \<le> p" by simp
    then have "(int ?r + 1) * (int ?r + 1) \<le> p * p"
      by (intro mult_mono) auto
    with up assms(2) show False by simp
  qed
  with n show ?thesis by (simp add: isqrt_def)
qed

lemma prime_divisor: 
  assumes "is_prime p" and "d dvd p" and "0 < d"
  shows "d = 1 \<or> d = p"
proof -
  from assms have "d \<le> p" by (simp add: is_prime_def zdvd_imp_le)
  show ?thesis
  proof (rule ccontr)
    assume "\<not> (d = 1 \<or> d = p)"
    with \<open>d \<le> p\<close> \<open>0 < d\<close> have "d \<in> {2..<p}" by auto
    with assms(1,2) show False by (auto simp: is_prime_def)
  qed
qed

lemma prime_coprime:
  assumes "is_prime p" and "0 < a" and "a < p"
  shows "coprime a (p * p)"
proof -
  have g: "gcd a p dvd p" "0 < gcd a p" using assms by auto
  from prime_divisor [OF assms(1) g] have "gcd a p = 1 \<or> gcd a p = p" .
  moreover have "gcd a p \<noteq> p"
  proof
    assume "gcd a p = p"
    then have "p dvd a" by (metis gcd_dvd1)
    with assms(2,3) show False by (simp add: zdvd_not_zless)
  qed
  ultimately have "coprime a p" by (simp add: coprime_iff_gcd_eq_1)
  then show ?thesis by simp
qed

lemma trial_division_raises:
  assumes "is_prime p" and "p * p dvd x" and "0 < x" and "2 \<le> a" and "a \<le> p" and "p \<le> r"
  shows "trial_division [a..r] x fs = Inl ValueError"
  using assms
proof (induction "nat (p - a)" arbitrary: a x fs)
  case 0
  then have ap: "a = p" by simp
  from 0 have "p dvd x" by (meson dvd_mult_left)
  moreover have "p dvd x div p"
  proof -
    from 0(3) obtain m where "x = p * p * m" by (elim dvdE)
    moreover have "p \<noteq> 0" using 0 ap by simp
    ultimately have "x div p = p * m" by (simp add: mult.assoc)
    then show ?thesis by simp
  qed
  moreover have "[a..r] = p # [p + 1..r]" using 0 ap by (simp add: upto.simps [of p r])
  ultimately show ?case by (simp add: Let_def)
next
  case (Suc k)
  then have lt: "a < p" by simp
  have list: "[a..r] = a # [a + 1..r]" using Suc lt by (simp add: upto.simps [of a r])
  have k: "k = nat (p - (a + 1))" using Suc(2) by simp
  show ?case
  proof (cases "x mod a = 0")
    case False
    with Suc.hyps(1) [OF k Suc.prems(1,2,3)] Suc.prems lt list show ?thesis by simp
  next
    case True
    then have "a dvd x" by (simp add: dvd_eq_mod_eq_0)
    have cop: "coprime a (p * p)" using prime_coprime [OF Suc.prems(1)] Suc.prems lt by simp
    then have "a * (p * p) dvd x" using \<open>a dvd x\<close> Suc.prems(2) by (simp add: divides_mult)
    then obtain m where m: "x = a * (p * p) * m" by (elim dvdE)
    have a0: "0 < a" using Suc.prems(4) by simp
    from m a0 have xa: "x div a = p * p * m" by (simp add: mult.assoc)
    then have pp: "p * p dvd x div a" by simp
    have "0 < a * (x div a)" using Suc.prems(3) \<open>a dvd x\<close> by simp
    with a0 have pos: "0 < x div a" by (simp add: zero_less_mult_iff)
    show ?thesis
      using Suc.hyps(1) [OF k Suc.prems(1) pp pos] Suc.prems lt list True by (simp add: Let_def)
  qed
qed

lemma normalize_root_raises:
  assumes "n \<noteq> 0" and "is_prime p" and "p * p dvd n"
  shows "normalize_root (RInt n) = Inl ValueError"
proof (cases "n < 0")
  case True
  then show ?thesis by (simp add: normalize_root_def isqrt_def)
next
  case False
  with assms(1) have pos: "0 < n" by simp
  have p2: "2 \<le> p" using assms(2) by (simp add: is_prime_def)
  have "p * p \<le> n" using pos assms(3) by (simp add: zdvd_imp_le)
  with p2 have r: "isqrt n = Inr (int (isqrt_nat (nat n)))" "p \<le> int (isqrt_nat (nat n))"
    using isqrt_ge [of p n] by simp_all
  from trial_division_raises [OF assms(2,3) pos _ p2 r(2), of "[]"]
  show ?thesis by (simp add: normalize_root_def r(1))
qed

lemma trial_division_error: "trial_division ps x fs = Inl e \<Longrightarrow> e = ValueError"
  by (induction ps x fs rule: trial_division.induct) (auto simp: Let_def split: if_splits)

lemma normalize_root_error: "normalize_root r = Inl e \<Longrightarrow> e = ValueError"
  by (auto simp: normalize_root_def isqrt_def split: rawspec.splits sum.splits if_splits
      dest: trial_division_error)

lemma LCoQI_loop_raises:
  assumes "(r, c) \<in> set raw" and "normalize_root r = Inl ValueError"
  shows "foldM (\<lambda>(r, c) d. case normalize_root r of Inl e \<Rightarrow> Inl e | Inr k \<Rightarrow> Inr (dict_set d k c)) raw d
           = Inl ValueError"
  using assms
proof (induction raw arbitrary: d)
  case Nil
  then show ?case by simp
next
  case (Cons t raw)
  obtain r' c' where t: "t = (r', c')" by (cases t)
  show ?case
  proof (cases "normalize_root r'")
    case (Inl e)
    then have "e = ValueError" by (rule normalize_root_error)
    with Inl t show ?thesis by simp
  next
    case (Inr k)
    with Cons.prems t have "(r, c) \<in> set raw" by auto
    from Cons.IH [OF this Cons.prems(2)] Inr t show ?thesis by simp
  qed
qed

lemma trial_division_nonempty:
  "trial_division ps x fs = Inr (x', fs') \<Longrightarrow> x \<noteq> 1 \<or> fs \<noteq> [] \<Longrightarrow> x' \<noteq> 1 \<or> fs' \<noteq> []"
  by (induction ps x fs rule: trial_division.induct) (auto simp: Let_def split: if_splits)

lemma normalize_root_nonempty:
  assumes "2 \<le> x" and "normalize_root (RInt x) = Inr K"
  shows "K \<noteq> {||}"
proof -
  from assms(2) obtain r x' fs where td: "trial_division [2..r] x [] = Inr (x', fs)"
    and K: "K = fset_of_list (map Prime (if x' \<noteq> 1 then fs @ [x'] else fs))"
    by (auto simp: normalize_root_def split: sum.splits prod.splits)
  from trial_division_nonempty [OF td] assms(1) have "x' \<noteq> 1 \<or> fs \<noteq> []" by simp
  with K show ?thesis by (cases fs) auto
qed

lemma trial_division_no_divisor:
  "\<forall>p \<in> set ps. x mod p \<noteq> 0 \<Longrightarrow> trial_division ps x fs = Inr (x, fs)"
  by (induction ps) auto

lemma normalize_root_prime:
  assumes "is_prime x"
  shows "normalize_root (RInt x) = Inr {|Prime x|}"
proof -
  from assms have x: "2 \<le> x" by (simp add: is_prime_def)
  let ?r = "int (isqrt_nat (nat x))"
  have "isqrt_nat (nat x) * isqrt_nat (nat x) \<le> nat x" using isqrt_nat_bounds by blast
  then have "int (isqrt_nat (nat x) * isqrt_nat (nat x)) \<le> int (nat x)" by (simp only: of_nat_le_iff)
  then have sq: "?r * ?r \<le> x" using x by simp
  have lt: "?r < x"
  proof (rule ccontr)
    assume "\<not> ?r < x"
    then have "x \<le> ?r" by simp
    then have "x * x \<le> ?r * ?r" using x by (intro mult_mono) auto
    moreover have "x < x * x" using x by simp
    ultimately show False using sq by simp
  qed
  have "\<forall>p \<in> set [2..?r]. x mod p \<noteq> 0"
  proof
    fix p assume "p \<in> set [2..?r]"
    then have "p \<in> {2..<x}" using lt by simp
    with assms have "\<not> p dvd x" by (simp add: is_prime_def)
    then show "x mod p \<noteq> 0" by (simp add: dvd_eq_mod_eq_0)
  qed
  then have "trial_division [2..?r] x [] = Inr (x, [])" by (rule trial_division_no_divisor)
  with x show ?thesis by (simp add: normalize_root_def isqrt_def)
qed

lemma additional_factor_two_terms:
  assumes "2 \<le> x" and "normalize_root (RInt x) = Inr K"
  shows "additional_factor x = Inr [({||}, of_int x), (K, 1)]"
proof -
  have "K \<noteq> {||}" using assms by (rule normalize_root_nonempty)
  moreover have "dict_of [(RInt 1, of_int x :: rat), (RInt x, 1)] = [(RInt 1, of_int x), (RInt x, 1)]"
    using assms(1) by (simp add: dict_of_def)
  ultimately show ?thesis
    using assms(2) by (auto simp: additional_factor_def LCoQI_def normalize_root_one)
qed

lemma square_of_nested_prime:
  assumes "is_prime x" and "c1 * c2 \<noteq> 0"
  shows "mul ord [({|Nested x|}, c1)] [({|Nested x|}, c2)]
           = Inr [({||}, c1 * c2 * of_int x), ({|Prime x|}, c1 * c2)]"
proof -
  from assms(1) have x: "2 \<le> x" by (simp add: is_prime_def)
  have f: "additional_factor x = Inr [({||}, of_int x), ({|Prime x|}, 1)]"
    using additional_factor_two_terms [OF x normalize_root_prime [OF assms(1)]] .
  show ?thesis using assms(2) x
    by (simp add: mul_single mul_general f key_simps add_def frozen_def dict_of_def)
qed

section \<open>The deferred factors of a product of two terms\<close>

lemma trial_division_square:
  "trial_division ps x fs = Inl e \<Longrightarrow> \<exists>p \<in> set ps. p * p dvd x"
proof (induction ps x fs rule: trial_division.induct)
  case (1 x factors)
  then show ?case by simp
next
  case (2 p ps x factors)
  show ?case
  proof (cases "x mod p = 0")
    case False
    with 2 show ?thesis by auto
  next
    case True
    then have px: "p dvd x" by (simp add: dvd_eq_mod_eq_0)
    then have x: "x = p * (x div p)" by simp
    show ?thesis
    proof (cases "(x div p) mod p = 0")
      case True
      then have "p dvd x div p" by (simp add: dvd_eq_mod_eq_0)
      then obtain m where "x div p = p * m" by (elim dvdE)
      with x have "x = p * p * m" by (simp add: mult.assoc)
      then have "p * p dvd x" by simp
      then show ?thesis by auto
    next
      case False
      with 2 \<open>x mod p = 0\<close> obtain q where q: "q \<in> set ps" "q * q dvd x div p"
        by (auto simp: Let_def)
      have "x div p dvd x" using x by (metis dvd_triv_right)
      with q(2) have "q * q dvd x" by (rule dvd_trans)
      with q(1) show ?thesis by auto
    qed
  qed
qed

lemma normalize_root_square_free:
  assumes "1 \<le> x" and "square_free x"
  shows "\<exists>K. normalize_root (RInt x) = Inr K"
proof (cases "normalize_root (RInt x)")
  case (Inr K)
  then show ?thesis by simp
next
  case (Inl e)
  let ?r = "int (isqrt_nat (nat x))"
  from assms(1) have i: "isqrt x = Inr ?r" by (simp add: isqrt_def)
  with Inl have "\<exists>e. trial_division [2..?r] x [] = Inl e"
    by (auto simp: normalize_root_def split: sum.splits)
  then obtain p where p: "p \<in> set [2..?r]" "p * p dvd x"
    using trial_division_square by blast
  then have "2 \<le> p" by simp
  have "p * p \<le> x" using p(2) assms(1) by (simp add: zdvd_imp_le)
  moreover have "p * 1 \<le> p * p" using \<open>2 \<le> p\<close> by (intro mult_left_mono) auto
  ultimately have "p \<le> x" by simp
  then have "p \<in> {2..x}" using \<open>2 \<le> p\<close> by simp
  with assms(2) p(2) show ?thesis by (auto simp: square_free_def)
qed

lemma nested_of_set: "set (nested_of rs) = {x. Nested x \<in> set rs}"
  by (induction rs rule: nested_of.induct) auto

lemma nested_of_distinct: "distinct rs \<Longrightarrow> distinct (nested_of rs)"
  by (induction rs rule: nested_of.induct) (auto simp: nested_of_set)

lemma collect_deferred:
  "\<forall>x \<in> set (nested_of rs). \<exists>f. additional_factor x = Inr f \<Longrightarrow>
   \<exists>fs. map additional_factor (nested_of rs) = map Inr fs
       \<and> collect rs c afs = Inr (c * of_int (prime_product rs), afs @ fs)"
proof (induction rs c afs rule: collect.induct)
  case (1 coef additional_factors)
  then show ?case by simp
next
  case (2 natural rs coef additional_factors)
  then show ?case by (simp add: mult.assoc)
next
  case (3 x rs coef additional_factors)
  from 3(2) obtain f where f: "additional_factor x = Inr f" by auto
  from 3(2) have "\<forall>x \<in> set (nested_of rs). \<exists>f. additional_factor x = Inr f" by simp
  from 3(1) [OF f this] obtain fs where fs: "map additional_factor (nested_of rs) = map Inr fs"
    "collect rs coef (additional_factors @ [f]) =
       Inr (coef * of_int (prime_product rs), (additional_factors @ [f]) @ fs)"
    by blast
  have "map additional_factor (nested_of (Nested x # rs)) = map Inr (f # fs)"
    using f fs(1) by simp
  moreover have "collect (Nested x # rs) coef additional_factors =
      Inr (coef * of_int (prime_product (Nested x # rs)), additional_factors @ f # fs)"
    using f fs(2) by simp
  ultimately show ?case by blast
qed

lemma shared_nested_normalises:
  assumes "2 \<le> x" and "square_free x"
  shows "\<exists>K. normalize_root (RInt x) = Inr K \<and> K \<noteq> {||}
            \<and> (is_prime x \<longrightarrow> K = {|Prime x|})
            \<and> additional_factor x = Inr [({||}, of_int x), (K, 1)]"
proof -
  from assms obtain K where K: "normalize_root (RInt x) = Inr K"
    using normalize_root_square_free [of x] by auto
  have "K \<noteq> {||}" using assms(1) K by (rule normalize_root_nonempty)
  moreover have "additional_factor x = Inr [({||}, of_int x), (K, 1)]"
    using assms(1) K by (rule additional_factor_two_terms)
  moreover have "K = {|Prime x|}" if "is_prime x"
    using normalize_root_prime [OF that] K by simp
  ultimately show ?thesis using K by blast
qed

lemma single_term_product:
  assumes "\<forall>x. Nested x |\<in>| root1 |\<inter>| root2 \<longrightarrow> 2 \<le> x \<and> square_free x"
  shows "\<exists>fs. map additional_factor (nested_of (iter ord (root1 |\<inter>| root2))) = map Inr fs
            \<and> collect (iter ord (root1 |\<inter>| root2)) (c1 * c2) []
                = Inr (c1 * c2 * of_int (prime_product (iter ord (root1 |\<inter>| root2))), fs)
            \<and> mul ord [(root1, c1)] [(root2, c2)]
                = foldM (\<lambda>factor result. mul ord result factor) fs
                    [(symmetric_difference root1 root2,
                      c1 * c2 * of_int (prime_product (iter ord (root1 |\<inter>| root2))))]"
proof -
  let ?rs = "iter ord (root1 |\<inter>| root2)"
  have "\<forall>x \<in> set (nested_of ?rs). \<exists>f. additional_factor x = Inr f"
  proof
    fix x assume "x \<in> set (nested_of ?rs)"
    then have "Nested x |\<in>| root1 |\<inter>| root2" by (simp add: nested_of_set iter_mem)
    with assms have "2 \<le> x" "square_free x" by simp_all
    then show "\<exists>f. additional_factor x = Inr f"
      using shared_nested_normalises [of x] by blast
  qed
  from collect_deferred [OF this, of "c1 * c2" "[]"] obtain fs
    where fs: "map additional_factor (nested_of ?rs) = map Inr fs"
      "collect ?rs (c1 * c2) [] = Inr (c1 * c2 * of_int (prime_product ?rs), fs)"
    by auto
  have "mul ord [(root1, c1)] [(root2, c2)]
      = foldM (\<lambda>factor result. mul ord result factor) fs
          [(symmetric_difference root1 root2, c1 * c2 * of_int (prime_product ?rs))]"
    by (simp add: mul_single fs(2))
  with fs show ?thesis by blast
qed

lemma shared_235: "{|Prime 5, Nested 2, Nested 3|} |\<inter>| {|Prime 5, Prime 7, Nested 2, Nested 3|}
    = {|Prime 5, Nested 2, Nested 3|}"
  by auto

lemma iter_235: "iter ascending {|Prime 5, Nested 2, Nested 3|} = [Prime 5, Nested 2, Nested 3]"
  by (simp add: iter_ascending sorted_list_of_fset.rep_eq less_eq_factor_def)

lemma diff_235: "symmetric_difference {|Prime 5, Nested 2, Nested 3|} {|Prime 5, Prime 7, Nested 2, Nested 3|} = {|Prime 7|}"
  by (auto simp: symmetric_difference_def)

lemma product_235:
  "foldM (\<lambda>factor result. mul ord result factor)
     [[({||}, 2), ({|Prime 2|}, 1)], [({||}, 3), ({|Prime 3|}, 1)]] [({|Prime 7|}, 30)]
   = Inr [({|Prime 7|}, 180), ({|Prime 3, Prime 7|}, 60), ({|Prime 2, Prime 7|}, 90),
          ({|Prime 2, Prime 3, Prime 7|}, 30)]"
  by (simp add: eval_simps)

section \<open>Division by the empty mapping, object identities\<close>

lemma truediv_empty: "truediv ord a [] = Some (Inl TypeError)"
  by (simp add: truediv_def inverse_empty)

lemma reachable_idents: "reachable h \<Longrightarrow> map ident h = [0..<length h]"
proof (induction rule: reachable.induct)
  case start
  then show ?case by simp
next
  case (alloc h v)
  then show ?case by (simp add: new_obj_def)
qed

section \<open>Rendering of keys and terms\<close>

lemma sqrt_sign_nonempty: "sqrt_sign \<noteq> []"
  by (simp add: sqrt_sign_def)

lemma root_to_str_loop_tokens:
  "root_to_str_loop rs res n = (res', n') \<Longrightarrow> \<forall>t \<in> set res. t \<noteq> [] \<Longrightarrow>
     (\<forall>t \<in> set res'. t \<noteq> []) \<and> ((\<exists>x. Nested x \<in> set rs) \<longrightarrow> res' \<noteq> [])
     \<and> (res \<noteq> [] \<longrightarrow> res' \<noteq> [])"
proof (induction rs res n rule: root_to_str_loop.induct)
  case (1 result number)
  then show ?case by simp
next
  case (2 x roots result number)
  then show ?case by simp
next
  case (3 x roots result number)
  then show ?case by (simp add: sqrt_sign_nonempty)
qed

lemma root_to_str_loop_number:
  "root_to_str_loop rs res n = (res', n') \<Longrightarrow> \<forall>p. Prime p \<in> set rs \<longrightarrow> 2 \<le> p \<Longrightarrow> 1 \<le> n \<Longrightarrow>
     n \<le> n' \<and> ((\<exists>p. Prime p \<in> set rs) \<longrightarrow> n < n')"
proof (induction rs res n rule: root_to_str_loop.induct)
  case (1 result number)
  then show ?case by simp
next
  case (2 x roots result number)
  from 2(3) have x: "2 \<le> x" by simp
  with 2(4) have lt: "number < number * x" by simp
  then have one: "1 \<le> number * x" using 2(4) by linarith
  have "root_to_str_loop roots result (number * x) = (res', n')" using 2(2) by simp
  moreover have "\<forall>p. Prime p \<in> set roots \<longrightarrow> 2 \<le> p" using 2(3) by simp
  ultimately have "number * x \<le> n'" using 2(1) one by blast
  with lt show ?case by simp
next
  case (3 x roots result number)
  then show ?case by simp
qed

lemma root_to_str_nonempty:
  assumes "K \<noteq> {||}" and "\<forall>p. Prime p |\<in>| K \<longrightarrow> 2 \<le> p"
  shows "root_to_str ord K \<noteq> []"
proof -
  obtain res n where l: "root_to_str_loop (iter ord K) [] 1 = (res, n)" by fastforce
  from assms(1) obtain f where f: "f \<in> set (iter ord K)"
    using iter_mem [of _ ord K] by auto
  have t: "\<forall>t \<in> set res. t \<noteq> []" "(\<exists>x. Nested x \<in> set (iter ord K)) \<longrightarrow> res \<noteq> []"
    using root_to_str_loop_tokens [OF l] by simp_all
  have n: "(\<exists>p. Prime p \<in> set (iter ord K)) \<longrightarrow> 1 < n"
    using root_to_str_loop_number [OF l] assms(2) by (simp add: iter_mem)
  show ?thesis
  proof (cases f)
    case (Prime p)
    with f n have "n \<noteq> 1" by auto
    then show ?thesis using l by (simp add: root_to_str_def sqrt_sign_nonempty)
  next
    case (Nested x)
    with f t have "res \<noteq> []" by auto
    then obtain r rest where "res = r # rest" by (cases res) auto
    with t(1) have "concat res \<noteq> []" by simp
    then show ?thesis using l \<open>res \<noteq> []\<close> by (simp add: root_to_str_def Let_def)
  qed
qed

lemma root_to_str_empty: "root_to_str ord {||} = []"
  by (simp add: root_to_str_def)

lemma str_lcoqi_cons:
  "a \<noteq> [] \<Longrightarrow> str_lcoqi sr ord (t # a) = str_term sr ord t @ '' + '' @ str_lcoqi sr ord a"
  by (cases a) (simp_all add: str_lcoqi_def)

lemma str_int_2: "str_int 2 = ''2''"
  by code_simp

section \<open>The structure of inverse\<close>

lemma fold_union_mem:
  "r |\<in>| fold (\<lambda>y x. x |\<union>| y) ks k \<longleftrightarrow> r |\<in>| k \<or> (\<exists>y \<in> set ks. r |\<in>| y)"
  by (induction ks arbitrary: k) auto

lemma reduce_union_mem:
  "reduce_union ks = Inr roots \<Longrightarrow> r |\<in>| roots \<longleftrightarrow> (\<exists>y \<in> set ks. r |\<in>| y)"
  by (cases ks) (auto simp: fold_union_mem)

lemma inverse_general:
  assumes "\<not> (length a = 1 \<and> {||} \<in> fst ` set a)" and "reduce_union (map fst a) = Inr roots"
  shows "inverse_lcoqi ord a =
           (case foldM (conjugate_step ord) (iter ord roots) (unit, a) of
              Inl e \<Rightarrow> Some (Inl e)
            | Inr (numerator, denominator) \<Rightarrow> truediv ord numerator denominator)"
proof -
  from assms(1) have c: "(length a = 1 \<and> {||} \<in> fst ` set a) = False" by simp
  show ?thesis
    unfolding truediv_def
    by (subst inverse_lcoqi.simps) (simp only: c if_False assms(2) sum.case)
qed

lemma inverse_rational:
  "c \<noteq> 0 \<Longrightarrow> inverse_lcoqi ord [({||}, c)] = Some (Inr [({||}, 1 / c)])"
  by (subst inverse_lcoqi.simps) (simp add: rational_div_def LCoQI_def normalize_root_one)

lemma nested_two_step:
  "conjugate_step ord (Nested 2) (unit, [({|Nested 2|}, 1)])
     = Inr ([({|Nested 2|}, - 1)], [({||}, - 2), ({|Prime 2|}, - 1)])"
  by (simp add: eval_simps additional_factor_2)

lemma nested_two_second_step:
  "conjugate_step ord (Prime 2) (unit, [({||}, - 2), ({|Prime 2|}, - 1)])
     = Inr ([({||}, - 2), ({|Prime 2|}, 1)], [({||}, 2)])"
  by (simp add: eval_simps)

lemma nested_two_denominator_inverse:
  "inverse_lcoqi ord [({||}, - 2), ({|Prime 2|}, - 1)] = Some (Inr [({||}, - 1), ({|Prime 2|}, 1 / 2)])"
  by (subst inverse_lcoqi.simps)
    (simp add: nested_two_second_step inverse_rational, simp add: eval_simps)

lemma nested_two_division:
  "truediv ord [({|Nested 2|}, - 1)] [({||}, - 2), ({|Prime 2|}, - 1)]
     = Some (Inr [({|Nested 2|}, 1), ({|Nested 2, Prime 2|}, - 1 / 2)])"
  by (simp add: truediv_def nested_two_denominator_inverse) (simp add: eval_simps)

lemma nested_two_inverse_law:
  "mul ord [({|Nested 2|}, 1)] [({|Nested 2|}, 1), ({|Nested 2, Prime 2|}, - 1 / 2)] = Inr unit"
  by (simp add: eval_simps additional_factor_2)

lemma nested_four_inverse: "inverse_lcoqi ord [({|Nested 4|}, 1)] = Some (Inl ValueError)"
proof -
  have f: "additional_factor 4 = Inl ValueError" by code_simp
  have "conjugate_step ord (Nested 4) (unit, [({|Nested 4|}, 1)]) = Inl ValueError"
    by (simp add: eval_simps f)
  then show ?thesis
    by (subst inverse_lcoqi.simps) (simp add: key_simps)
qed

lemma nested_one_square: "mul ord [({|Nested 1|}, 1)] [({|Nested 1|}, 1)] = Inr unit"
  by (simp add: eval_simps additional_factor_1)

section \<open>Preservation of the invariant\<close>

lemma values_dict_set: "snd ` set (dict_set d k v) \<subseteq> insert v (snd ` set d)"
proof (induction d)
  case Nil
  then show ?case by simp
next
  case (Cons t d)
  obtain k' v' where t: "t = (k', v')" by (cases t)
  show ?case using Cons.IH by (auto simp: t)
qed

lemma dict_of_fold_keys:
  "fst ` set (fold (\<lambda>(k, v) d. dict_set d k v) xs d) = fst ` set d \<union> fst ` set xs"
proof (induction xs arbitrary: d)
  case Nil
  then show ?case by simp
next
  case (Cons t xs)
  obtain k v where t: "t = (k, v)" by (cases t)
  show ?case by (simp add: t Cons.IH keys_dict_set)
qed

lemma dict_of_fold_values:
  "snd ` set (fold (\<lambda>(k, v) d. dict_set d k v) xs d) \<subseteq> snd ` set d \<union> snd ` set xs"
proof (induction xs arbitrary: d)
  case Nil
  then show ?case by simp
next
  case (Cons t xs)
  obtain k v where t: "t = (k, v)" by (cases t)
  have "snd ` set (fold (\<lambda>(k, v) d. dict_set d k v) xs (dict_set d k v))
      \<subseteq> snd ` set (dict_set d k v) \<union> snd ` set xs" by (rule Cons.IH)
  with values_dict_set [of d k v]
  have "snd ` set (fold (\<lambda>(k, v) d. dict_set d k v) xs (dict_set d k v))
      \<subseteq> snd ` set d \<union> insert v (snd ` set xs)" by blast
  then show ?case by (simp add: t)
qed

lemma frozen_keys: "fst ` set (frozen xs) = fst ` set xs"
  by (simp add: frozen_def dict_of_def dict_of_fold_keys)

lemma frozen_values: "snd ` set (frozen xs) \<subseteq> snd ` set xs"
  using dict_of_fold_values [of xs "[]"] by (simp add: frozen_def dict_of_def)

lemma no_zero_iff: "no_zero a \<longleftrightarrow> 0 \<notin> snd ` set a"
  by (auto simp: no_zero_def image_iff)

lemma factors_nonzero_iff:
  "factors_nonzero a \<longleftrightarrow> (\<forall>K \<in> fst ` set a. Prime 0 |\<notin>| K \<and> Nested 0 |\<notin>| K)"
  by (auto simp: factors_nonzero_def)

lemma no_zero_frozen_filter: "no_zero (frozen (filter (\<lambda>(rt, coef). coef \<noteq> 0) xs))"
proof -
  have "0 \<notin> snd ` set (filter (\<lambda>(rt, coef). coef \<noteq> 0) xs)" by auto
  with frozen_values show ?thesis unfolding no_zero_iff by blast
qed

lemma no_zero_add: "no_zero (add a b)"
  unfolding add_def by (rule no_zero_frozen_filter)

lemma no_zero_sub: "no_zero (sub a b)"
  unfolding sub_def by (rule no_zero_frozen_filter)

lemma update_fold_keys:
  "fst ` set (fold (\<lambda>(rt, coef) result. dict_set result rt (f result rt coef)) b a)
     = fst ` set a \<union> fst ` set b"
proof (induction b arbitrary: a)
  case Nil
  then show ?case by simp
next
  case (Cons t b)
  obtain k v where t: "t = (k, v)" by (cases t)
  show ?case by (simp add: t Cons.IH keys_dict_set)
qed

lemma keys_add: "fst ` set (add a b) \<subseteq> fst ` set a \<union> fst ` set b"
proof -
  have "fst ` set (add a b) \<subseteq> fst ` set
      (fold (\<lambda>(rt, coef) result. dict_set result rt (dict_get result rt 0 + coef)) b a)"
    unfolding add_def frozen_keys by auto
  then show ?thesis
    using update_fold_keys [of "\<lambda>result rt coef. dict_get result rt 0 + coef" b a] by simp
qed

lemma canonical_add: "canonical a \<Longrightarrow> canonical b \<Longrightarrow> canonical (add a b)"
  using keys_add [of a b] by (auto simp: canonical_def no_zero_add factors_nonzero_iff)

lemma foldM_invariant:
  assumes "foldM f xs s = Inr s'" and "Q s"
    and "\<And>x u u'. x \<in> set xs \<Longrightarrow> Q u \<Longrightarrow> f x u = Inr u' \<Longrightarrow> Q u'"
  shows "Q s'"
  using assms
proof (induction xs arbitrary: s)
  case Nil
  then show ?case by simp
next
  case (Cons x xs)
  from Cons.prems(1) obtain u where u: "f x s = Inr u" and rest: "foldM f xs u = Inr s'"
    by (auto split: sum.splits)
  have "Q u" using Cons.prems(3) [of x s u] Cons.prems(2) u by simp
  show ?case
  proof (rule Cons.IH [OF rest \<open>Q u\<close>])
    fix y w w' assume "y \<in> set xs" "Q w" "f y w = Inr w'"
    then show "Q w'" using Cons.prems(3) [of y w w'] by simp
  qed
qed

lemma mul_invariant:
  fixes I :: "lcoqi \<Rightarrow> bool"
  assumes single: "\<And>ord r1 c1 r2 c2 coef adds.
      I [(r1, c1)] \<Longrightarrow> I [(r2, c2)] \<Longrightarrow>
      collect (iter ord (r1 |\<inter>| r2)) (c1 * c2) [] = Inr (coef, adds) \<Longrightarrow>
      I [(symmetric_difference r1 r2, coef)] \<and> (\<forall>f \<in> set adds. I f)"
    and add: "\<And>x y. I x \<Longrightarrow> I y \<Longrightarrow> I (add x y)"
    and empty: "I []"
    and one_term: "\<And>a t. I a \<Longrightarrow> t \<in> set a \<Longrightarrow> I [t]"
  shows "I a \<Longrightarrow> I b \<Longrightarrow> mul ord a b = Inr v \<Longrightarrow> I v"
proof (induction ord a b arbitrary: v rule: mul.induct)
  case (1 ord a b)
  show ?case
  proof (cases "length a = 1 \<and> length b = 1")
    case False
    let ?G = "\<lambda>root1 coef1. (\<lambda>(root2, coef2) result.
                case mul ord [(root1, coef1)] [(root2, coef2)] of
                  Inl e \<Rightarrow> Inl e
                | Inr t \<Rightarrow> Inr (add result t))"
    have run: "foldM (\<lambda>(root1, coef1) result. foldM (?G root1 coef1) b result) a [] = Inr v"
      using "1.prems"(3) False by (simp add: mul_general)
    show ?thesis
    proof (rule foldM_invariant [where Q = I, OF run empty])
      fix x u u'
      assume x: "x \<in> set a" and u: "I u"
        and step: "(case x of (root1, coef1) \<Rightarrow> \<lambda>result. foldM (?G root1 coef1) b result) u = Inr u'"
      obtain r1 c1 where x_eq: "x = (r1, c1)" by (cases x)
      from step x_eq have inner: "foldM (?G r1 c1) b u = Inr u'" by simp
      show "I u'"
      proof (rule foldM_invariant [where Q = I, OF inner u])
        fix y w w'
        assume y: "y \<in> set b" and w: "I w" and g: "?G r1 c1 y w = Inr w'"
        obtain r2 c2 where y_eq: "y = (r2, c2)" by (cases y)
        from g y_eq obtain t where t: "mul ord [(r1, c1)] [(r2, c2)] = Inr t" and w': "w' = add w t"
          by (auto split: sum.splits)
        have "I [(r1, c1)]" "I [(r2, c2)]"
          using one_term [OF "1.prems"(1)] one_term [OF "1.prems"(2)] x y x_eq y_eq by auto
        then have "I t"
          using "1.IH"(1) [OF False x x_eq [symmetric] y y_eq [symmetric], of t] t by simp
        with w w' show "I w'" by (simp add: add)
      qed
    qed
  next
    case True
    then obtain r1 c1 r2 c2 where a: "a = [(r1, c1)]" and b: "b = [(r2, c2)]"
      by (cases a; cases b) auto
    from "1.prems"(3) obtain coef adds
      where c: "collect (iter ord (r1 |\<inter>| r2)) (c1 * c2) [] = Inr (coef, adds)"
        and run: "foldM (\<lambda>factor result. mul ord result factor) adds
                    [(symmetric_difference r1 r2, coef)] = Inr v"
      unfolding a b by (auto simp: mul_single split: sum.splits)
    from single [OF _ _ c] "1.prems"(1,2) have start: "I [(symmetric_difference r1 r2, coef)]"
      and adds: "\<forall>f \<in> set adds. I f"
      unfolding a b by auto
    show ?thesis
    proof (rule foldM_invariant [where Q = I, OF run start])
      fix f u u'
      assume f: "f \<in> set adds" and u: "I u" and m: "mul ord u f = Inr u'"
      have "\<not> \<not> (length a = 1 \<and> length b = 1)" using True by simp
      from "1.IH"(2) [OF this _ _ _ _ _ f, of "(r1, c1)" "(r2, c2)" r1 c1 r2 c2 "(coef, adds)" coef u u']
        c a b u adds f m
      show "I u'" by simp
    qed
  qed
qed

lemma canonical_empty: "canonical []"
  by (simp add: canonical_def no_zero_def factors_nonzero_def)

lemma canonical_unit: "canonical unit"
  by (simp add: canonical_def no_zero_def factors_nonzero_def unit_def)

lemma canonical_one_term: "canonical a \<Longrightarrow> t \<in> set a \<Longrightarrow> canonical [t]"
  by (simp add: canonical_def no_zero_def factors_nonzero_def)

lemma collect_coef:
  "collect rs coef adds0 = Inr (coef', adds) \<Longrightarrow> coef \<noteq> 0 \<Longrightarrow> Prime 0 \<notin> set rs \<Longrightarrow> coef' \<noteq> 0"
proof (induction rs coef adds0 rule: collect.induct)
  case (1 coef additional_factors)
  then show ?case by simp
next
  case (2 natural rs coef additional_factors)
  then have "natural \<noteq> 0" by auto
  with 2 show ?case by simp
next
  case (3 x rs coef additional_factors)
  then show ?case by (auto split: sum.splits)
qed

lemma trial_division_nonzero:
  "trial_division ps x fs = Inr (x', fs') \<Longrightarrow> x \<noteq> 0 \<Longrightarrow> 0 \<notin> set ps \<Longrightarrow> 0 \<notin> set fs
     \<Longrightarrow> x' \<noteq> 0 \<and> 0 \<notin> set fs'"
proof (induction ps x fs rule: trial_division.induct)
  case (1 x factors)
  then show ?case by simp
next
  case (2 p ps x factors)
  show ?case
  proof (cases "x mod p = 0")
    case False
    with 2 show ?thesis by simp
  next
    case True
    then have "p dvd x" by (simp add: dvd_eq_mod_eq_0)
    with "2.prems"(2) have d: "x div p \<noteq> 0" by (metis dvd_div_eq_0_iff)
    from "2.prems"(1) True have nd: "\<not> (x div p) mod p = 0"
      and rest: "trial_division ps (x div p) (factors @ [p]) = Inr (x', fs')"
      by (auto simp: Let_def split: if_splits)
    from "2.IH"(1) [OF True refl nd rest d] "2.prems"(3,4) show ?thesis by simp
  qed
qed

lemma normalize_root_RInt_nonzero:
  assumes "normalize_root (RInt x) = Inr K" and "x \<noteq> 0"
  shows "Prime 0 |\<notin>| K"
proof -
  from assms(1) obtain r x' fs where td: "trial_division [2..r] x [] = Inr (x', fs)"
    and K: "K = fset_of_list (map Prime (if x' \<noteq> 1 then fs @ [x'] else fs))"
    by (auto simp: normalize_root_def split: sum.splits prod.splits)
  from trial_division_nonzero [OF td assms(2)] have "x' \<noteq> 0" "0 \<notin> set fs" by simp_all
  with K show ?thesis by (auto simp: fset_of_list_elem)
qed

lemma LCoQI_loop_values:
  "foldM (\<lambda>(r, c) d. case normalize_root r of Inl e \<Rightarrow> Inl e | Inr k \<Rightarrow> Inr (dict_set d k c)) raw d = Inr v
     \<Longrightarrow> snd ` set v \<subseteq> snd ` set d \<union> snd ` set raw"
proof (induction raw arbitrary: d)
  case Nil
  then show ?case by simp
next
  case (Cons t raw)
  obtain r c where t: "t = (r, c)" by (cases t)
  from Cons.prems t obtain k where k: "normalize_root r = Inr k"
    and rest: "foldM (\<lambda>(r, c) d. case normalize_root r of Inl e \<Rightarrow> Inl e | Inr k \<Rightarrow> Inr (dict_set d k c)) raw (dict_set d k c) = Inr v"
    by (auto split: sum.splits)
  from Cons.IH [OF rest] values_dict_set [of d k c]
  have "snd ` set v \<subseteq> snd ` set d \<union> insert c (snd ` set raw)" by blast
  then show ?case by (simp add: t)
qed

lemma LCoQI_loop_keys:
  "foldM (\<lambda>(r, c) d. case normalize_root r of Inl e \<Rightarrow> Inl e | Inr k \<Rightarrow> Inr (dict_set d k c)) raw d = Inr v
     \<Longrightarrow> K \<in> fst ` set v \<Longrightarrow> K \<in> fst ` set d \<or> (\<exists>t \<in> set raw. normalize_root (fst t) = Inr K)"
proof (induction raw arbitrary: d)
  case Nil
  then show ?case by simp
next
  case (Cons t raw)
  obtain r c where t: "t = (r, c)" by (cases t)
  from Cons.prems(1) t obtain k where k: "normalize_root r = Inr k"
    and rest: "foldM (\<lambda>(r, c) d. case normalize_root r of Inl e \<Rightarrow> Inl e | Inr k \<Rightarrow> Inr (dict_set d k c)) raw (dict_set d k c) = Inr v"
    by (auto split: sum.splits)
  from Cons.IH [OF rest Cons.prems(2)]
  have "K \<in> fst ` set (dict_set d k c) \<or> (\<exists>t \<in> set raw. normalize_root (fst t) = Inr K)" .
  then show ?case using k t by (auto simp: keys_dict_set)
qed

lemma constructor_stores_given_coefficients: "LCoQI raw = Inr v \<Longrightarrow> snd ` set v \<subseteq> snd ` set raw"
  using LCoQI_loop_values [of raw "[]" v] by (simp add: LCoQI_def)

lemma LCoQI_loop_exact:
  "foldM (\<lambda>(r, c) d. case normalize_root r of Inl e \<Rightarrow> Inl e | Inr k \<Rightarrow> Inr (dict_set d k c)) raw d = Inr v
     \<Longrightarrow> \<exists>ks. map (normalize_root \<circ> fst) raw = map Inr ks
            \<and> v = fold (\<lambda>(k, v) d. dict_set d k v) (zip ks (map snd raw)) d"
proof (induction raw arbitrary: d)
  case Nil
  then show ?case by simp
next
  case (Cons t raw)
  obtain r c where t: "t = (r, c)" by (cases t)
  from Cons.prems t obtain k where k: "normalize_root r = Inr k"
    and rest: "foldM (\<lambda>(r, c) d. case normalize_root r of Inl e \<Rightarrow> Inl e | Inr k \<Rightarrow> Inr (dict_set d k c)) raw (dict_set d k c) = Inr v"
    by (auto split: sum.splits)
  from Cons.IH [OF rest] obtain ks where ks: "map (normalize_root \<circ> fst) raw = map Inr ks"
    "v = fold (\<lambda>(k, v) d. dict_set d k v) (zip ks (map snd raw)) (dict_set d k c)" by blast
  have "map (normalize_root \<circ> fst) (t # raw) = map Inr (k # ks)" using ks(1) k t by simp
  moreover have "v = fold (\<lambda>(k, v) d. dict_set d k v) (zip (k # ks) (map snd (t # raw))) d"
    using ks(2) t by simp
  ultimately show ?case by blast
qed

lemma constructor_stores_every_item:
  assumes "LCoQI raw = Inr v"
  shows "\<exists>ks. map (normalize_root \<circ> fst) raw = map Inr ks
            \<and> v = dict_of (zip ks (map snd raw))
            \<and> (distinct ks \<longrightarrow> map fst v = ks \<and> map snd v = map snd raw
                  \<and> (no_zero v \<longleftrightarrow> 0 \<notin> snd ` set raw))"
proof -
  from LCoQI_loop_exact [of raw "[]" v] assms obtain ks
    where ks: "map (normalize_root \<circ> fst) raw = map Inr ks"
      and v: "v = dict_of (zip ks (map snd raw))"
    by (auto simp: LCoQI_def dict_of_def)
  from ks have len: "length ks = length raw" by (metis length_map)
  have "map fst v = ks \<and> map snd v = map snd raw \<and> (no_zero v \<longleftrightarrow> 0 \<notin> snd ` set raw)"
    if "distinct ks"
  proof -
    from that len have "distinct (map fst (zip ks (map snd raw)))" by simp
    then have z: "v = zip ks (map snd raw)" using v by (simp add: dict_of_distinct)
    with len have m: "map fst v = ks" "map snd v = map snd raw" by simp_all
    from m(2) have "set (map snd v) = set (map snd raw)" by simp
    then have "snd ` set v = snd ` set raw" by simp
    then have "no_zero v \<longleftrightarrow> 0 \<notin> snd ` set raw" by (simp add: no_zero_iff)
    with m show ?thesis by simp
  qed
  with ks v show ?thesis by blast
qed

lemma set_dict_set: "set (dict_set d k v) \<subseteq> insert (k, v) (set d)"
  by (induction d) (auto split: if_splits)

lemma dict_of_subset: "set (dict_of xs) \<subseteq> set xs"
proof -
  have "set (fold (\<lambda>(k, v) d. dict_set d k v) xs d) \<subseteq> set d \<union> set xs" for d :: "('a \<times> 'b) list"
  proof (induction xs arbitrary: d)
    case Nil
    then show ?case by simp
  next
    case (Cons t xs)
    obtain k v where t: "t = (k, v)" by (cases t)
    from Cons.IH [of "dict_set d k v"] set_dict_set [of d k v]
    have "set (fold (\<lambda>(k, v) d. dict_set d k v) xs (dict_set d k v)) \<subseteq> set d \<union> insert (k, v) (set xs)"
      by blast
    then show ?case by (simp add: t)
  qed
  from this [of "[]"] show ?thesis by (simp add: dict_of_def)
qed

lemma additional_factor_canonical:
  assumes "additional_factor x = Inr f" and "x \<noteq> 0"
  shows "canonical f"
proof -
  let ?raw = "dict_of [(RInt 1, of_int x :: rat), (RInt x, 1)]"
  have raw: "set ?raw \<subseteq> {(RInt 1, of_int x), (RInt x, 1)}"
    using dict_of_subset [of "[(RInt 1, of_int x :: rat), (RInt x, 1)]"] by simp
  have f: "LCoQI ?raw = Inr f" using assms(1) by (simp add: additional_factor_def)
  have "snd ` set f \<subseteq> snd ` set ?raw" using f by (rule constructor_stores_given_coefficients)
  with raw have "snd ` set f \<subseteq> {of_int x, 1}" by fastforce
  then have nz: "no_zero f" using assms(2) by (auto simp: no_zero_iff)
  have "Prime 0 |\<notin>| K \<and> Nested 0 |\<notin>| K" if "K \<in> fst ` set f" for K
  proof -
    from LCoQI_loop_keys [of ?raw "[]" f K] f that
    obtain t where t: "t \<in> set ?raw" "normalize_root (fst t) = Inr K"
      by (auto simp: LCoQI_def)
    from t(1) raw have "fst t = RInt 1 \<or> fst t = RInt x" by auto
    then show ?thesis
      using t(2) normalize_root_RInt_nonzero [of 1 K] normalize_root_RInt_nonzero [of x K]
        normalize_root_RInt_no_nested [of 1 K 0] normalize_root_RInt_no_nested [of x K 0] assms(2)
      by auto
  qed
  then have "factors_nonzero f" by (simp add: factors_nonzero_iff)
  with nz show ?thesis by (simp add: canonical_def)
qed

lemma canonical_single_product:
  assumes "canonical [(r1, c1)]" and "canonical [(r2, c2)]"
    and "collect (iter ord (r1 |\<inter>| r2)) (c1 * c2) [] = Inr (coef, adds)"
  shows "canonical [(symmetric_difference r1 r2, coef)] \<and> (\<forall>f \<in> set adds. canonical f)"
proof -
  from assms(1,2) have c: "c1 * c2 \<noteq> 0" and k1: "Prime 0 |\<notin>| r1" "Nested 0 |\<notin>| r1"
    and k2: "Prime 0 |\<notin>| r2" "Nested 0 |\<notin>| r2"
    by (simp_all add: canonical_def no_zero_def factors_nonzero_def)
  have "Prime 0 \<notin> set (iter ord (r1 |\<inter>| r2))" using k1 by (simp add: iter_mem)
  from collect_coef [OF assms(3) c this] have "coef \<noteq> 0" .
  then have start: "canonical [(symmetric_difference r1 r2, coef)]"
    using k1 k2 by (simp add: canonical_def no_zero_def factors_nonzero_def symmetric_difference_def)
  have "canonical f" if "f \<in> set adds" for f
  proof -
    from collect_adds [OF assms(3) that] obtain x
      where x: "Nested x \<in> set (iter ord (r1 |\<inter>| r2))" "additional_factor x = Inr f" by auto
    from x(1) k1 have "x \<noteq> 0" by (auto simp: iter_mem)
    with x(2) show ?thesis by (rule additional_factor_canonical)
  qed
  with start show ?thesis by simp
qed

lemma canonical_mul:
  "canonical a \<Longrightarrow> canonical b \<Longrightarrow> mul ord a b = Inr v \<Longrightarrow> canonical v"
  by (rule mul_invariant [where I = canonical, OF canonical_single_product canonical_add
        canonical_empty canonical_one_term])

lemma keys_sub: "fst ` set (sub a b) \<subseteq> fst ` set a \<union> fst ` set b"
proof -
  have "fst ` set (sub a b) \<subseteq> fst ` set
      (fold (\<lambda>(rt, coef) result. dict_set result rt (dict_get result rt 0 - coef)) b a)"
    unfolding sub_def frozen_keys by auto
  then show ?thesis
    using update_fold_keys [of "\<lambda>result rt coef. dict_get result rt 0 - coef" b a] by simp
qed

lemma canonical_sub: "canonical a \<Longrightarrow> canonical b \<Longrightarrow> canonical (sub a b)"
  using keys_sub [of a b] by (auto simp: canonical_def no_zero_sub factors_nonzero_iff)

lemma canonical_complement: "canonical d \<Longrightarrow> canonical (complement r d)"
proof -
  assume d: "canonical d"
  let ?m = "map (\<lambda>(roots, coef). (roots, if r |\<in>| roots then - coef else coef)) d"
  have k: "fst ` set (complement r d) = fst ` set d"
    by (force simp: complement_def frozen_keys)
  have "snd ` set (complement r d) \<subseteq> snd ` set ?m"
    unfolding complement_def by (rule frozen_values)
  moreover have "0 \<notin> snd ` set ?m"
  proof
    assume "0 \<in> snd ` set ?m"
    then obtain roots coef where "(roots, coef) \<in> set d" "(if r |\<in>| roots then - coef else coef) = 0"
      by auto
    then have "(roots, coef) \<in> set d" "coef = 0" by (auto split: if_splits)
    with d show False by (auto simp: canonical_def no_zero_def)
  qed
  ultimately have "no_zero (complement r d)" unfolding no_zero_iff by blast
  with k d show ?thesis by (simp add: canonical_def factors_nonzero_iff)
qed

lemma canonical_conjugate_step:
  assumes "conjugate_step ord r (n, d) = Inr (n', d')" and "canonical n" and "canonical d"
  shows "canonical n' \<and> canonical d'"
proof -
  from assms(1) have "mul ord d (complement r d) = Inr d'" "mul ord n (complement r d) = Inr n'"
    by (auto simp: conjugate_step_def Let_def split: sum.splits)
  with assms(2,3) canonical_complement [OF assms(3), of r] show ?thesis
    by (blast intro: canonical_mul)
qed

lemma canonical_conjugate_loop:
  assumes "foldM (conjugate_step ord) rs (n, d) = Inr (n', d')" and "canonical n" and "canonical d"
  shows "canonical n' \<and> canonical d'"
proof -
  have "(\<lambda>s. canonical (fst s) \<and> canonical (snd s)) (n', d')"
  proof (rule foldM_invariant [OF assms(1)])
    show "canonical (fst (n, d)) \<and> canonical (snd (n, d))" using assms(2,3) by simp
  next
    fix x u u'
    assume "canonical (fst u) \<and> canonical (snd u)" and "conjugate_step ord x u = Inr u'"
    then show "canonical (fst u') \<and> canonical (snd u')"
      using canonical_conjugate_step [of ord x "fst u" "snd u" "fst u'" "snd u'"] by simp
  qed
  then show ?thesis by simp
qed

lemma canonical_inverse_aux:
  assumes "inverse_lcoqi ord0 a0 = Some res0"
  shows "canonical a0 \<longrightarrow> (\<forall>v. res0 = Inr v \<longrightarrow> canonical v)"
proof (rule inverse_lcoqi.raw_induct [OF _ assms])
  fix inv :: "iter_order \<Rightarrow> lcoqi \<Rightarrow> (error + lcoqi) option"
    and ord :: iter_order and a :: lcoqi and res :: "error + lcoqi"
  assume IH: "\<And>ord a res. inv ord a = Some res \<Longrightarrow>
      canonical a \<longrightarrow> (\<forall>v. res = Inr v \<longrightarrow> canonical v)"
  assume hyp: "(if length a = 1 \<and> {||} \<in> fst ` set a then
        Some (case rational_div 1 (dict_get a {||} 0) of
                Inl e \<Rightarrow> Inl e
              | Inr q \<Rightarrow> LCoQI [(RInt 1, q)])
      else
        (case reduce_union (map fst a) of
           Inl e \<Rightarrow> Some (Inl e)
         | Inr roots \<Rightarrow>
             (case foldM (conjugate_step ord) (iter ord roots) (unit, a) of
                Inl e \<Rightarrow> Some (Inl e)
              | Inr (numerator, denominator) \<Rightarrow>
                  Option.bind (inv ord denominator)
                    (\<lambda>r. Some (case r of Inl e \<Rightarrow> Inl e | Inr i \<Rightarrow> mul ord numerator i))))) = Some res"
  show "canonical a \<longrightarrow> (\<forall>v. res = Inr v \<longrightarrow> canonical v)"
  proof (intro impI allI)
    fix v
    assume ca: "canonical a" and rv: "res = Inr v"
    show "canonical v"
    proof (cases "length a = 1 \<and> {||} \<in> fst ` set a")
      case True
      with hyp rv have r: "(case rational_div 1 (dict_get a {||} 0) of
          Inl e \<Rightarrow> Inl e | Inr q \<Rightarrow> LCoQI [(RInt 1, q)]) = Inr v" by simp
      then obtain q where q: "rational_div 1 (dict_get a {||} 0) = Inr q" "LCoQI [(RInt 1, q)] = Inr v"
        by (auto split: sum.splits)
      from q(1) have "q \<noteq> 0" by (auto simp: rational_div_def split: if_splits)
      moreover from q(2) have "v = [({||}, q)]" by (simp add: LCoQI_def normalize_root_one)
      ultimately show ?thesis by (simp add: canonical_def no_zero_def factors_nonzero_def)
    next
      case False
      then have c: "(length a = 1 \<and> {||} \<in> fst ` set a) = False" by simp
      from hyp have body: "(case reduce_union (map fst a) of
             Inl e \<Rightarrow> Some (Inl e)
           | Inr roots \<Rightarrow>
               (case foldM (conjugate_step ord) (iter ord roots) (unit, a) of
                  Inl e \<Rightarrow> Some (Inl e)
                | Inr (numerator, denominator) \<Rightarrow>
                    Option.bind (inv ord denominator)
                      (\<lambda>r. Some (case r of Inl e \<Rightarrow> Inl e | Inr i \<Rightarrow> mul ord numerator i))))
          = Some (Inr v)" unfolding rv c if_False .
      then obtain roots where roots: "reduce_union (map fst a) = Inr roots"
        by (cases "reduce_union (map fst a)") auto
      with body obtain n d where loop: "foldM (conjugate_step ord) (iter ord roots) (unit, a) = Inr (n, d)"
        by (cases "foldM (conjugate_step ord) (iter ord roots) (unit, a)") auto
      with body roots have b2: "Option.bind (inv ord d)
          (\<lambda>r. Some (case r of Inl e \<Rightarrow> Inl e | Inr i \<Rightarrow> mul ord n i)) = Some (Inr v)" by simp
      then obtain r where r: "inv ord d = Some r"
        and r2: "(case r of Inl e \<Rightarrow> Inl e | Inr i \<Rightarrow> mul ord n i) = Inr v"
        by (cases "inv ord d") auto
      from r2 obtain i where i: "r = Inr i" and m: "mul ord n i = Inr v"
        by (cases r) auto
      from canonical_conjugate_loop [OF loop canonical_unit ca]
      have "canonical n" "canonical d" by simp_all
      from IH [OF r] \<open>canonical d\<close> i have "canonical i" by simp
      with \<open>canonical n\<close> m show ?thesis by (blast intro: canonical_mul)
    qed
  qed
qed

lemma canonical_inverse:
  "inverse_lcoqi ord a = Some (Inr v) \<Longrightarrow> canonical a \<Longrightarrow> canonical v"
  using canonical_inverse_aux [of ord a "Inr v"] by simp

lemma canonical_truediv:
  assumes "truediv ord a b = Some (Inr v)" and "canonical a" and "canonical b"
  shows "canonical v"
proof -
  from assms(1) obtain i where i: "inverse_lcoqi ord b = Some (Inr i)" and m: "mul ord a i = Inr v"
    by (auto simp: truediv_def split: Option.bind_splits sum.splits)
  from canonical_inverse [OF i assms(3)] have "canonical i" .
  with assms(2) m show ?thesis by (blast intro: canonical_mul)
qed

lemma canonical_pow_loop:
  "pow_loop ord n result factor = Inr v \<Longrightarrow> canonical result \<Longrightarrow> canonical factor \<Longrightarrow> canonical v"
proof (induction ord n result factor rule: pow_loop.induct)
  case (1 ord n result factor)
  show ?case
  proof (cases "n = 0")
    case True
    with "1.prems" show ?thesis by (simp add: pow_loop_0)
  next
    case False
    from "1.prems"(1) False obtain result' factor'
      where r: "(if n mod 2 = 1 then mul ord result factor else Inr result) = Inr result'"
        and f: "mul ord factor factor = Inr factor'"
        and rest: "pow_loop ord (n div 2) result' factor' = Inr v"
      by (subst (asm) pow_loop.simps) (auto split: sum.splits)
    have "canonical result'" using r "1.prems"(2,3) by (auto split: if_splits intro: canonical_mul)
    moreover have "canonical factor'" using f "1.prems"(3) by (blast intro: canonical_mul)
    ultimately show ?thesis using "1.IH" [OF False r f rest] by simp
  qed
qed

lemma canonical_pow:
  assumes "pow ord a n = Some (Inr v)" and "canonical a"
  shows "canonical v"
proof -
  from assms(1) obtain r where r: "pow_loop ord (nat \<bar>n\<bar>) unit a = Inr r"
    and v: "(if 0 \<le> n then Some (Inr r) else inverse_lcoqi ord r) = Some (Inr v)"
    by (auto simp: pow_def split: sum.splits)
  from canonical_pow_loop [OF r canonical_unit assms(2)] have "canonical r" .
  with v show ?thesis by (auto split: if_splits intro: canonical_inverse)
qed

lemma dict_get_dict_set:
  "dict_get (dict_set d k v) k' z = (if k' = k then v else dict_get d k' z)"
  by (induction d) auto

lemma set_dict_set_other:
  "(k', v') \<in> set (dict_set d k v) \<Longrightarrow> k' \<noteq> k \<Longrightarrow> (k', v') \<in> set d"
  using set_dict_set [of d k v] by auto

lemma set_dict_set_same:
  "distinct (map fst d) \<Longrightarrow> (k, v') \<in> set (dict_set d k v) \<Longrightarrow> v' = v"
proof (induction d)
  case Nil
  then show ?case by simp
next
  case (Cons t d)
  obtain k0 v0 where t: "t = (k0, v0)" by (cases t)
  show ?case
  proof (cases "k0 = k")
    case True
    with Cons.prems t show ?thesis by (auto simp: image_iff)
  next
    case False
    with Cons t show ?thesis by auto
  qed
qed

lemma distinct_dict_set: "distinct (map fst d) \<Longrightarrow> distinct (map fst (dict_set d k v))"
  by (simp add: map_fst_dict_set)

lemma sub_loop_zero:
  assumes "distinct (map fst xs)" and "distinct (map fst res)"
    and "\<forall>t \<in> set xs. dict_get res (fst t) 0 = snd t"
    and "\<forall>t \<in> set res. fst t \<notin> fst ` set xs \<longrightarrow> snd t = 0"
  shows "\<forall>t \<in> set (fold (\<lambda>(rt, coef) result. dict_set result rt (dict_get result rt 0 - coef)) xs res).
           snd t = (0::rat)"
  using assms
proof (induction xs arbitrary: res)
  case Nil
  then show ?case by simp
next
  case (Cons x xs)
  obtain k c where x: "x = (k, c)" by (cases x)
  let ?res = "dict_set res k (dict_get res k 0 - c)"
  from Cons.prems(3) x have "dict_get res k 0 = c" by simp
  then have r: "?res = dict_set res k 0" by simp
  have d1: "distinct (map fst xs)" and kx: "k \<notin> fst ` set xs" using Cons.prems(1) x by auto
  have d2: "distinct (map fst ?res)" using Cons.prems(2) by (rule distinct_dict_set)
  have a: "\<forall>t \<in> set xs. dict_get ?res (fst t) 0 = snd t"
  proof
    fix t assume t: "t \<in> set xs"
    with kx have "fst t \<noteq> k" by auto
    with Cons.prems(3) t show "dict_get ?res (fst t) 0 = snd t" by (simp add: dict_get_dict_set)
  qed
  have b: "\<forall>t \<in> set ?res. fst t \<notin> fst ` set xs \<longrightarrow> snd t = 0"
  proof (intro ballI impI)
    fix t assume t: "t \<in> set ?res" and n: "fst t \<notin> fst ` set xs"
    obtain k' v' where t_eq: "t = (k', v')" by (cases t)
    show "snd t = 0"
    proof (cases "k' = k")
      case True
      with t t_eq r set_dict_set_same [OF Cons.prems(2), of k v' 0] show ?thesis by simp
    next
      case False
      with t t_eq have m: "(k', v') \<in> set res" by (auto dest: set_dict_set_other)
      have o: "k' \<notin> fst ` set (x # xs)" using False n t_eq x by auto
      from Cons.prems(4) m have "fst (k', v') \<notin> fst ` set (x # xs) \<longrightarrow> snd (k', v') = 0"
        by (rule bspec)
      with o t_eq show ?thesis by simp
    qed
  qed
  from Cons.IH [OF d1 d2 a b] show ?case by (simp add: x)
qed

lemma dict_get_member: "distinct (map fst d) \<Longrightarrow> (k, v) \<in> set d \<Longrightarrow> dict_get d k z = v"
  by (induction d) (auto simp: image_iff)

lemma sub_self: 
  assumes "distinct (map fst a)"
  shows "sub a a = []"
proof -
  let ?r = "fold (\<lambda>(rt, coef) result. dict_set result rt (dict_get result rt 0 - coef)) a a"
  have "\<forall>t \<in> set a. dict_get a (fst t) 0 = snd t"
    using dict_get_member [OF assms] by auto
  from sub_loop_zero [OF assms assms this] have "\<forall>t \<in> set ?r. snd t = 0" by simp
  then have "filter (\<lambda>(rt, coef). coef \<noteq> 0) ?r = []"
    by (auto simp: filter_empty_conv)
  then show ?thesis by (simp add: sub_def)
qed

section \<open>Arithmetic on \<open>1 + sqrt 2\<close> and \<open>3 sqrt 2\<close>\<close>

lemma constructor_with_zero:
  "LCoQI [(RInt 1, 0), (RInt 2, 1)] = Inr [({||}, 0), ({|Prime 2|}, 1)]"
  by code_simp

lemma keys_with_zero:
  "map (normalize_root \<circ> fst) [(RInt 1, 0 :: rat), (RInt 2, 1)] = map Inr [{||}, {|Prime 2|}]"
  by code_simp

lemma inverse_one_plus_sqrt_two:
  "inverse_lcoqi ord [({||}, 1), ({|Prime 2|}, 1)] = Some (Inr [({||}, - 1), ({|Prime 2|}, 1)])"
proof -
  have s: "conjugate_step ord (Prime 2) (unit, [({||}, 1), ({|Prime 2|}, 1)])
     = Inr ([({||}, 1), ({|Prime 2|}, - 1)], [({||}, - 1)])"
    by (simp add: eval_simps)
  show ?thesis
    by (subst inverse_lcoqi.simps) (simp add: s inverse_rational, simp add: eval_simps)
qed

lemma inverse_three_sqrt_two:
  "inverse_lcoqi ord [({|Prime 2|}, 3)] = Some (Inr [({|Prime 2|}, 1 / 6)])"
proof -
  have s: "conjugate_step ord (Prime 2) (unit, [({|Prime 2|}, 3)])
     = Inr ([({|Prime 2|}, - 3)], [({||}, - 18)])"
    by (simp add: eval_simps)
  show ?thesis
    by (subst inverse_lcoqi.simps) (simp add: s inverse_rational key_simps, simp add: eval_simps)
qed

lemma sum_with_three_sqrt_two:
  "add [({||}, 1), ({|Prime 2|}, 1)] [({|Prime 2|}, 3)] = [({||}, 1), ({|Prime 2|}, 4)]"
  by (simp add: eval_simps)

lemma difference_with_three_sqrt_two:
  "sub [({||}, 1), ({|Prime 2|}, 1)] [({|Prime 2|}, 3)] = [({||}, 1), ({|Prime 2|}, - 2)]"
  by (simp add: sub_def eval_simps)

lemma product_with_three_sqrt_two:
  "mul ord [({||}, 1), ({|Prime 2|}, 1)] [({|Prime 2|}, 3)] = Inr [({|Prime 2|}, 3), ({||}, 6)]"
  by (simp add: eval_simps)

lemma quotient_by_three_sqrt_two:
  "truediv ord [({||}, 1), ({|Prime 2|}, 1)] [({|Prime 2|}, 3)]
     = Some (Inr [({|Prime 2|}, 1 / 6), ({||}, 1 / 3)])"
  by (simp add: truediv_def inverse_three_sqrt_two) (simp add: eval_simps)

lemma square_of_one_plus_sqrt_two:
  "mul ord [({||}, 1), ({|Prime 2|}, 1)] [({||}, 1), ({|Prime 2|}, 1)]
     = Inr [({||}, 3), ({|Prime 2|}, 2)]"
  by (simp add: eval_simps)

lemma power_minus_one:
  "pow ord [({||}, 1), ({|Prime 2|}, 1)] (- 1) = Some (Inr [({||}, - 1), ({|Prime 2|}, 1)])"
  by (simp add: pow_def pow_loop_1 square_of_one_plus_sqrt_two inverse_one_plus_sqrt_two)
    (simp add: eval_simps inverse_one_plus_sqrt_two)

lemma power_two:
  "pow ord [({||}, 1), ({|Prime 2|}, 1)] 2 = Some (Inr [({||}, 3), ({|Prime 2|}, 2)])"
proof -
  have two: "pow_loop ord 2 unit [({||}, 1), ({|Prime 2|}, 1)]
      = pow_loop ord (Suc 0) unit [({||}, 3), ({|Prime 2|}, 2)]"
    by (subst pow_loop.simps) (simp add: square_of_one_plus_sqrt_two)
  have m: "mul ord unit [({||}, 3), ({|Prime 2|}, 2)] = Inr [({||}, 3), ({|Prime 2|}, 2)]"
    "mul ord [({||}, 3), ({|Prime 2|}, 2)] [({||}, 3), ({|Prime 2|}, 2)]
       = Inr [({||}, 17), ({|Prime 2|}, 12)]"
    by (simp_all add: eval_simps)
  show ?thesis by (simp add: pow_def two pow_loop_1 m)
qed

section \<open>Claims\<close>

text \<open>
  C1, at the input \<^verbatim>\<open>LCoQI({("+\<surd>", 1): 1, 1: -1})\<close>. The value is not zero (it stands
  for \<open>sqrt 2 - 1\<close>), yet \<^verbatim>\<open>inverse\<close> raises \<^verbatim>\<open>TypeError\<close>: the dict display
  \<^verbatim>\<open>{1: x, x: 1}\<close> has one item when \<open>x = 1\<close>, so the square of \<^verbatim>\<open>("+\<surd>", 1)\<close> is
  computed as 1, the first denominator is the empty mapping, and \<^verbatim>\<open>reduce\<close> fails on it.
\<close>

theorem inverse_fails_on_nested_one:
  "LCoQI [(RNested 1, 1), (RInt 1, - 1)] = Inr [({|Nested 1|}, 1), ({||}, - 1)]
   \<and> additional_factor 1 = Inr unit
   \<and> mul ord [({|Nested 1|}, 1)] [({|Nested 1|}, 1)] = Inr unit
   \<and> inverse_lcoqi ord [({|Nested 1|}, 1), ({||}, - 1)] = Some (Inl TypeError)"
proof (intro conjI)
  show "LCoQI [(RNested 1, 1), (RInt 1, - 1)] = Inr [({|Nested 1|}, 1), ({||}, - 1)]"
    by code_simp
  show "additional_factor 1 = Inr unit"
    by (simp add: additional_factor_1 unit_def)
  show "mul ord [({|Nested 1|}, 1)] [({|Nested 1|}, 1)] = Inr unit"
    by (rule nested_one_square)
  show "inverse_lcoqi ord [({|Nested 1|}, 1), ({||}, - 1)] = Some (Inl TypeError)"
    by (rule nested_one_inverse)
qed

text \<open>
  C2, as the claim states it: the constructor does not prune. \<^verbatim>\<open>LCoQI({1: 0})\<close> stores
  the coefficient 0 on the empty key.
\<close>

theorem constructor_keeps_zero_coefficient:
  "LCoQI [(RInt 1, 0)] = Inr [({||}, 0)] \<and> \<not> no_zero [({||}, 0)]"
  by (simp add: LCoQI_def normalize_root_one no_zero_def)

text \<open>
  C2, amended. The constructor prunes nothing: it stores every item it is given, under
  the normalised key and with the coefficient unchanged, zero or not, in the order given
  (of items whose keys normalise to the same key, the first fixes the position and the
  last the coefficient). So when the normalised keys are distinct the stored coefficients
  are the given ones, one for one, and the value has a zero coefficient exactly when one
  was given. Addition and subtraction return a value with no zero coefficient, whatever
  their operands; \<open>a - a\<close> is the empty mapping. On operands that have no zero
  coefficient and no factor 0 in a key, every operation (addition, subtraction,
  multiplication, division, inversion, integer power) returns, when it returns a value,
  one with no zero coefficient and no factor 0 again. The instance below builds
  \<^verbatim>\<open>LCoQI({1: 0, 2: 1})\<close> and computes with \<open>1 + sqrt 2\<close> and \<open>3 sqrt 2\<close>.
\<close>

theorem zero_coefficients_pruned_by_arithmetic:
  "(LCoQI raw = Inr v0 \<longrightarrow>
      (\<exists>ks. map (normalize_root \<circ> fst) raw = map Inr ks
           \<and> v0 = dict_of (zip ks (map snd raw))
           \<and> (distinct ks \<longrightarrow> map fst v0 = ks \<and> map snd v0 = map snd raw
                 \<and> (no_zero v0 \<longleftrightarrow> 0 \<notin> snd ` set raw))))
   \<and> no_zero (add a b) \<and> no_zero (sub a b)
   \<and> (distinct (map fst a) \<longrightarrow> sub a a = [])
   \<and> (canonical a \<longrightarrow> canonical b \<longrightarrow>
        canonical (add a b) \<and> canonical (sub a b)
        \<and> (\<forall>v. mul ord a b = Inr v \<longrightarrow> canonical v)
        \<and> (\<forall>v. truediv ord a b = Some (Inr v) \<longrightarrow> canonical v))
   \<and> (canonical a \<longrightarrow>
        (\<forall>v. inverse_lcoqi ord a = Some (Inr v) \<longrightarrow> canonical v)
        \<and> (\<forall>n v. pow ord a n = Some (Inr v) \<longrightarrow> canonical v))"
  by (intro conjI impI allI)
    (erule constructor_stores_every_item, rule no_zero_add, rule no_zero_sub,
     erule sub_self, erule (1) canonical_add, erule (1) canonical_sub,
     erule (2) canonical_mul, erule (2) canonical_truediv,
     erule (1) canonical_inverse, erule (1) canonical_pow)

theorem zero_coefficients_pruned_by_arithmetic_witness:
  "LCoQI [(RInt 1, 0), (RInt 2, 1)] = Inr [({||}, 0), ({|Prime 2|}, 1)]
   \<and> map (normalize_root \<circ> fst) [(RInt 1, 0 :: rat), (RInt 2, 1)] = map Inr [{||}, {|Prime 2|}]
   \<and> distinct [{||}, {|Prime 2|}]
   \<and> map snd [({||} :: key, 0 :: rat), ({|Prime 2|}, 1)] = map snd [(RInt 1, 0 :: rat), (RInt 2, 1)]
   \<and> \<not> no_zero [({||}, 0), ({|Prime 2|}, 1)]
   \<and> canonical [({||}, 1), ({|Prime 2|}, 1)] \<and> canonical [({|Prime 2|}, 3)]
   \<and> distinct (map fst [({||} :: key, 1 :: rat), ({|Prime 2|}, 1)])
   \<and> sub [({||}, 1), ({|Prime 2|}, 1)] [({||}, 1), ({|Prime 2|}, 1)] = []
   \<and> add [({||}, 1), ({|Prime 2|}, 1)] [({|Prime 2|}, 3)] = [({||}, 1), ({|Prime 2|}, 4)]
   \<and> canonical [({||}, 1), ({|Prime 2|}, 4)]
   \<and> sub [({||}, 1), ({|Prime 2|}, 1)] [({|Prime 2|}, 3)] = [({||}, 1), ({|Prime 2|}, - 2)]
   \<and> canonical [({||}, 1), ({|Prime 2|}, - 2)]
   \<and> mul ascending [({||}, 1), ({|Prime 2|}, 1)] [({|Prime 2|}, 3)] = Inr [({|Prime 2|}, 3), ({||}, 6)]
   \<and> canonical [({|Prime 2|}, 3), ({||}, 6)]
   \<and> truediv ascending [({||}, 1), ({|Prime 2|}, 1)] [({|Prime 2|}, 3)]
        = Some (Inr [({|Prime 2|}, 1 / 6), ({||}, 1 / 3)])
   \<and> canonical [({|Prime 2|}, 1 / 6), ({||}, 1 / 3)]
   \<and> inverse_lcoqi ascending [({||}, 1), ({|Prime 2|}, 1)] = Some (Inr [({||}, - 1), ({|Prime 2|}, 1)])
   \<and> pow ascending [({||}, 1), ({|Prime 2|}, 1)] (- 1) = Some (Inr [({||}, - 1), ({|Prime 2|}, 1)])
   \<and> canonical [({||}, - 1), ({|Prime 2|}, 1)]
   \<and> pow ascending [({||}, 1), ({|Prime 2|}, 1)] 2 = Some (Inr [({||}, 3), ({|Prime 2|}, 2)])
   \<and> canonical [({||}, 3), ({|Prime 2|}, 2)]"
proof -
  let ?a = "[({||}, 1), ({|Prime 2|}, 1)] :: lcoqi"
  let ?b = "[({|Prime 2|}, 3)] :: lcoqi"
  have k: "canonical ?a" "canonical ?b"
    by (simp_all add: canonical_def no_zero_def factors_nonzero_def)
  have d: "distinct (map fst ?a)" by (simp add: key_simps)
  note t = zero_coefficients_pruned_by_arithmetic
    [of "[(RInt 1, 0), (RInt 2, 1)]" "[({||}, 0), ({|Prime 2|}, 1)]" ?a ?b ascending]
  from t constructor_with_zero obtain ks where ks: "map (normalize_root \<circ> fst) [(RInt 1, 0 :: rat), (RInt 2, 1)] = map Inr ks"
    "distinct ks \<longrightarrow> map snd [({||} :: key, 0 :: rat), ({|Prime 2|}, 1)] = map snd [(RInt 1, 0 :: rat), (RInt 2, 1)]
       \<and> (no_zero [({||}, 0), ({|Prime 2|}, 1)] \<longleftrightarrow> 0 \<notin> snd ` set [(RInt 1, 0 :: rat), (RInt 2, 1)])"
    by blast
  from ks(1) keys_with_zero have "map Inr ks = (map Inr [{||}, {|Prime 2|}] :: (error + key) list)" by simp
  then have e: "ks = [{||}, {|Prime 2|}]" by (auto simp: map_eq_Cons_conv)
  have dk: "distinct [{||}, {|Prime 2|}]" by (simp add: key_simps)
  from ks(2) e dk have z: "map snd [({||} :: key, 0 :: rat), ({|Prime 2|}, 1)] = map snd [(RInt 1, 0 :: rat), (RInt 2, 1)]"
    "\<not> no_zero [({||}, 0), ({|Prime 2|}, 1)]" by simp_all
  from t d have s: "sub ?a ?a = []" by blast
  from t k have c1: "canonical (add ?a ?b)" "canonical (sub ?a ?b)" by blast+
  from t k product_with_three_sqrt_two [of ascending] have c2: "canonical [({|Prime 2|}, 3), ({||}, 6)]" by blast
  from t k quotient_by_three_sqrt_two [of ascending] have c3: "canonical [({|Prime 2|}, 1 / 6), ({||}, 1 / 3)]" by blast
  from t k inverse_one_plus_sqrt_two [of ascending] have c4: "canonical [({||}, - 1), ({|Prime 2|}, 1)]" by blast
  from t k power_two [of ascending] have c5: "canonical [({||}, 3), ({|Prime 2|}, 2)]" by blast
  show ?thesis
    using constructor_with_zero keys_with_zero dk z k d s c1 c2 c3 c4 c5 sum_with_three_sqrt_two difference_with_three_sqrt_two product_with_three_sqrt_two [of ascending] quotient_by_three_sqrt_two [of ascending]
      inverse_one_plus_sqrt_two [of ascending] power_minus_one [of ascending] power_two [of ascending]
    by (simp only: simp_thms)
qed

text \<open>
  C3, as the claim states it: two values built one after the other from the same dict
  have equal coefficient mappings and compare unequal.
\<close>

theorem equal_mappings_compare_unequal:
  "reachable (snd (new_obj (snd (new_obj [] unit)) unit))
   \<and> coeffs (fst (new_obj [] unit)) = coeffs (fst (new_obj (snd (new_obj [] unit)) unit))
   \<and> \<not> py_eq (fst (new_obj [] unit)) (fst (new_obj (snd (new_obj [] unit)) unit))"
proof -
  have "reachable (snd (new_obj (snd (new_obj [] unit)) unit))"
    by (intro reachable.intros)
  then show ?thesis by (simp add: new_obj_def py_eq_def)
qed

text \<open>
  C3, amended. \<^verbatim>\<open>==\<close> on values is object identity: among the objects of a heap built by
  constructor calls, two compare equal exactly when they are the same object (the same
  position of the heap), whatever their coefficient mappings.
\<close>

theorem equality_is_identity:
  assumes "reachable h" and "i < length h" and "j < length h"
  shows "py_eq (h ! i) (h ! j) \<longleftrightarrow> i = j"
proof -
  have "ident (h ! i) = i" "ident (h ! j) = j"
    using reachable_idents [OF assms(1)] assms(2,3) by (metis nth_map nth_upt add_0)+
  then show ?thesis by (simp add: py_eq_def)
qed

theorem equality_is_identity_witness:
  "reachable (snd (new_obj (snd (new_obj [] unit)) unit))
   \<and> (0::nat) < length (snd (new_obj (snd (new_obj [] unit)) unit))
   \<and> (1::nat) < length (snd (new_obj (snd (new_obj [] unit)) unit))
   \<and> coeffs (snd (new_obj (snd (new_obj [] unit)) unit) ! 0)
       = coeffs (snd (new_obj (snd (new_obj [] unit)) unit) ! 1)
   \<and> \<not> py_eq (snd (new_obj (snd (new_obj [] unit)) unit) ! 0)
       (snd (new_obj (snd (new_obj [] unit)) unit) ! 1)"
proof -
  have r: "reachable (snd (new_obj (snd (new_obj [] unit)) unit))"
    by (intro reachable.intros)
  have l: "(0::nat) < length (snd (new_obj (snd (new_obj [] unit)) unit))"
    "(1::nat) < length (snd (new_obj (snd (new_obj [] unit)) unit))"
    by (simp_all add: new_obj_def)
  from equality_is_identity [OF r l] r l show ?thesis
    by (simp add: new_obj_def)
qed

text \<open>
  C4, as the claim states it, at \<open>x = 2\<close>: the deferred factor \<^verbatim>\<open>LCoQI({1: 2, 2: 1})\<close> has
  coefficient 1, not 2, on the key of \<open>sqrt 2\<close>.
\<close>

theorem additional_factor_coefficient_is_one:
  "additional_factor 2 = Inr [({||}, 2), ({|Prime 2|}, 1)]
   \<and> dict_get [({||}, 2), ({|Prime 2|}, 1)] {|Prime 2|} 0 \<noteq> (2::rat)"
  by (simp add: additional_factor_2 key_simps)

text \<open>
  C4, amended. In the product of two single terms, every \<open>Nested x\<close> found in both
  keys, with \<open>x \<ge> 2\<close> square-free, defers exactly one factor, \<^verbatim>\<open>LCoQI({1: x, x: 1})\<close>,
  the value \<open>x + sqrt x\<close>: it has exactly two terms, coefficient \<open>x\<close> on the empty key
  and coefficient 1 on the key that \<open>x\<close> normalises to, which is not empty and is
  \<open>{Prime x}\<close> for a prime \<open>x\<close>. The loop over the shared factors returns these factors,
  one for each shared \<open>Nested x\<close> in the order of iteration, and the product of the
  coefficients and of the shared ints; the product of the two terms is the term on the
  symmetric difference of the keys with that coefficient, multiplied by the deferred
  factors in turn. For two terms that share \<open>Nested y\<close> alone, \<open>y\<close> prime, this is the
  product of the coefficients times \<open>y + sqrt y\<close>.
\<close>

theorem additional_factor_is_x_plus_sqrt_x:
  assumes "\<forall>x. Nested x |\<in>| root1 |\<inter>| root2 \<longrightarrow> 2 \<le> x \<and> square_free x"
  shows "(\<forall>x. Nested x |\<in>| root1 |\<inter>| root2 \<longrightarrow>
            (\<exists>K. normalize_root (RInt x) = Inr K \<and> K \<noteq> {||}
                 \<and> (is_prime x \<longrightarrow> K = {|Prime x|})
                 \<and> additional_factor x = Inr [({||}, of_int x), (K, 1)]))
       \<and> distinct (nested_of (iter ord (root1 |\<inter>| root2)))
       \<and> set (nested_of (iter ord (root1 |\<inter>| root2))) = {x. Nested x |\<in>| root1 |\<inter>| root2}
       \<and> (\<exists>fs. map additional_factor (nested_of (iter ord (root1 |\<inter>| root2))) = map Inr fs
            \<and> collect (iter ord (root1 |\<inter>| root2)) (c1 * c2) []
                = Inr (c1 * c2 * of_int (prime_product (iter ord (root1 |\<inter>| root2))), fs)
            \<and> mul ord [(root1, c1)] [(root2, c2)]
                = foldM (\<lambda>factor result. mul ord result factor) fs
                    [(symmetric_difference root1 root2,
                      c1 * c2 * of_int (prime_product (iter ord (root1 |\<inter>| root2))))])
       \<and> (is_prime y \<longrightarrow> c1 * c2 \<noteq> 0 \<longrightarrow>
            mul ord [({|Nested y|}, c1)] [({|Nested y|}, c2)]
              = Inr [({||}, c1 * c2 * of_int y), ({|Prime y|}, c1 * c2)])"
proof (intro conjI allI impI)
  fix x assume "Nested x |\<in>| root1 |\<inter>| root2"
  with assms have "2 \<le> x" "square_free x" by simp_all
  then show "\<exists>K. normalize_root (RInt x) = Inr K \<and> K \<noteq> {||}
                 \<and> (is_prime x \<longrightarrow> K = {|Prime x|})
                 \<and> additional_factor x = Inr [({||}, of_int x), (K, 1)]"
    by (rule shared_nested_normalises)
next
  show "distinct (nested_of (iter ord (root1 |\<inter>| root2)))"
    by (rule nested_of_distinct) (rule iter_distinct)
next
  show "set (nested_of (iter ord (root1 |\<inter>| root2))) = {x. Nested x |\<in>| root1 |\<inter>| root2}"
    by (simp add: nested_of_set iter_mem)
next
  from assms show "\<exists>fs. map additional_factor (nested_of (iter ord (root1 |\<inter>| root2))) = map Inr fs
            \<and> collect (iter ord (root1 |\<inter>| root2)) (c1 * c2) []
                = Inr (c1 * c2 * of_int (prime_product (iter ord (root1 |\<inter>| root2))), fs)
            \<and> mul ord [(root1, c1)] [(root2, c2)]
                = foldM (\<lambda>factor result. mul ord result factor) fs
                    [(symmetric_difference root1 root2,
                      c1 * c2 * of_int (prime_product (iter ord (root1 |\<inter>| root2))))]"
    by (rule single_term_product)
next
  assume "is_prime y" and "c1 * c2 \<noteq> 0"
  then show "mul ord [({|Nested y|}, c1)] [({|Nested y|}, c2)]
      = Inr [({||}, c1 * c2 * of_int y), ({|Prime y|}, c1 * c2)]"
    by (rule square_of_nested_prime)
qed

theorem additional_factor_is_x_plus_sqrt_x_witness:
  "square_free 2 \<and> square_free 3 \<and> is_prime 2
   \<and> nested_of (iter ascending ({|Prime 5, Nested 2, Nested 3|} |\<inter>| {|Prime 5, Prime 7, Nested 2, Nested 3|})) = [2, 3]
   \<and> prime_product (iter ascending ({|Prime 5, Nested 2, Nested 3|} |\<inter>| {|Prime 5, Prime 7, Nested 2, Nested 3|})) = 5
   \<and> additional_factor 2 = Inr [({||}, 2), ({|Prime 2|}, 1)]
   \<and> additional_factor 3 = Inr [({||}, 3), ({|Prime 3|}, 1)]
   \<and> collect (iter ascending ({|Prime 5, Nested 2, Nested 3|} |\<inter>| {|Prime 5, Prime 7, Nested 2, Nested 3|})) (2 * 3) []
       = Inr (30, [[({||}, 2), ({|Prime 2|}, 1)], [({||}, 3), ({|Prime 3|}, 1)]])
   \<and> mul ascending [({|Prime 5, Nested 2, Nested 3|}, 2)] [({|Prime 5, Prime 7, Nested 2, Nested 3|}, 3)]
       = Inr [({|Prime 7|}, 180), ({|Prime 3, Prime 7|}, 60), ({|Prime 2, Prime 7|}, 90),
              ({|Prime 2, Prime 3, Prime 7|}, 30)]
   \<and> mul ascending [({|Nested 2|}, 2)] [({|Nested 2|}, 3)] = Inr [({||}, 12), ({|Prime 2|}, 6)]"
proof -
  have sf: "square_free 2" "square_free 3"
    unfolding square_free_def set_upto [symmetric] by (simp_all del: set_upto)
  have p: "is_prime 2" by (simp add: is_prime_def)
  have h: "\<forall>x. Nested x |\<in>| {|Prime 5, Nested 2, Nested 3|} |\<inter>| {|Prime 5, Prime 7, Nested 2, Nested 3|}
              \<longrightarrow> 2 \<le> x \<and> square_free x"
    using sf by auto
  have n: "nested_of (iter ascending ({|Prime 5, Nested 2, Nested 3|} |\<inter>| {|Prime 5, Prime 7, Nested 2, Nested 3|})) = [2, 3]"
    "prime_product (iter ascending ({|Prime 5, Nested 2, Nested 3|} |\<inter>| {|Prime 5, Prime 7, Nested 2, Nested 3|})) = 5"
    by (simp_all add: shared_235 iter_235)
  note t = additional_factor_is_x_plus_sqrt_x [OF h, of ascending 2 3 2]
  from t obtain fs where fs:
    "map additional_factor (nested_of (iter ascending ({|Prime 5, Nested 2, Nested 3|} |\<inter>| {|Prime 5, Prime 7, Nested 2, Nested 3|}))) = map Inr fs"
    "collect (iter ascending ({|Prime 5, Nested 2, Nested 3|} |\<inter>| {|Prime 5, Prime 7, Nested 2, Nested 3|})) (2 * 3) []
       = Inr (2 * 3 * of_int (prime_product (iter ascending ({|Prime 5, Nested 2, Nested 3|} |\<inter>| {|Prime 5, Prime 7, Nested 2, Nested 3|}))), fs)"
    "mul ascending [({|Prime 5, Nested 2, Nested 3|}, 2)] [({|Prime 5, Prime 7, Nested 2, Nested 3|}, 3)]
       = foldM (\<lambda>factor result. mul ascending result factor) fs
           [(symmetric_difference {|Prime 5, Nested 2, Nested 3|} {|Prime 5, Prime 7, Nested 2, Nested 3|},
             2 * 3 * of_int (prime_product (iter ascending ({|Prime 5, Nested 2, Nested 3|} |\<inter>| {|Prime 5, Prime 7, Nested 2, Nested 3|}))))]"
    by blast
  from fs(1) have f: "fs = [[({||}, 2), ({|Prime 2|}, 1)], [({||}, 3), ({|Prime 3|}, 1)]]"
    by (simp only: n list.map additional_factor_2 additional_factor_3) auto
  have c: "collect (iter ascending ({|Prime 5, Nested 2, Nested 3|} |\<inter>| {|Prime 5, Prime 7, Nested 2, Nested 3|})) (2 * 3) []
       = Inr (30, [[({||}, 2), ({|Prime 2|}, 1)], [({||}, 3), ({|Prime 3|}, 1)]])"
    using fs(2) by (simp only: n f) simp
  have m: "mul ascending [({|Prime 5, Nested 2, Nested 3|}, 2)] [({|Prime 5, Prime 7, Nested 2, Nested 3|}, 3)]
       = Inr [({|Prime 7|}, 180), ({|Prime 3, Prime 7|}, 60), ({|Prime 2, Prime 7|}, 90),
              ({|Prime 2, Prime 3, Prime 7|}, 30)]"
    using fs(3) product_235 [of ascending] by (simp only: n f diff_235) simp
  from t p have s: "mul ascending [({|Nested 2|}, 2)] [({|Nested 2|}, 3)] = Inr [({||}, 12), ({|Prime 2|}, 6)]"
    by simp
  from sf p n additional_factor_2 additional_factor_3 c m s show ?thesis by simp
qed

text \<open>
  C5. For \<^verbatim>\<open>v = LCoQI({("+\<surd>", 2): 1})\<close> the product \<^verbatim>\<open>v * v\<close> has the coefficient
  mapping of \<^verbatim>\<open>LCoQI({1: 2, 2: 1})\<close>: coefficient 2 on the empty key and coefficient 1 on
  the key of \<open>sqrt 2\<close>, for every iteration order.
\<close>

theorem nested_radical_squaring:
  "LCoQI [(RNested 2, 1)] = Inr [({|Nested 2|}, 1)]
   \<and> LCoQI [(RInt 1, 2), (RInt 2, 1)] = Inr [({||}, 2), ({|Prime 2|}, 1)]
   \<and> mul ord [({|Nested 2|}, 1)] [({|Nested 2|}, 1)] = Inr [({||}, 2), ({|Prime 2|}, 1)]"
proof (intro conjI)
  show "LCoQI [(RNested 2, 1)] = Inr [({|Nested 2|}, 1)]"
    by (simp add: LCoQI_def normalize_root_def)
  show "LCoQI [(RInt 1, 2), (RInt 2, 1)] = Inr [({||}, 2), ({|Prime 2|}, 1)]"
    by code_simp
  show "mul ord [({|Nested 2|}, 1)] [({|Nested 2|}, 1)] = Inr [({||}, 2), ({|Prime 2|}, 1)]"
    by (simp add: eval_simps additional_factor_2)
qed

text \<open>
  C6. An integer key other than 0 that is not square-free (the square of a prime \<open>p\<close>
  divides it) makes \<^verbatim>\<open>normalize_root\<close> raise \<^verbatim>\<open>ValueError\<close>, the error the code uses
  for the spec's ArithmeticDomainError, and so does the constructor on every dict that has
  such a key. (The spec's keys are positive integers; a negative one is refused by
  \<^verbatim>\<open>math.isqrt\<close> with the same error.)
\<close>

theorem non_square_free_rejected:
  assumes "n \<noteq> 0" and "is_prime p" and "p * p dvd n" and "(RInt n, c) \<in> set raw"
  shows "normalize_root (RInt n) = Inl ValueError \<and> LCoQI raw = Inl ValueError"
proof -
  have e: "normalize_root (RInt n) = Inl ValueError"
    using assms(1,2,3) by (rule normalize_root_raises)
  from LCoQI_loop_raises [OF assms(4) e] e show ?thesis by (simp add: LCoQI_def)
qed

theorem non_square_free_rejected_witness:
  "(12::int) \<noteq> 0 \<and> is_prime 2 \<and> (2::int) * 2 dvd 12 \<and> (RInt 12, 1) \<in> set [(RInt 12, 1)]
   \<and> normalize_root (RInt 12) = Inl ValueError \<and> LCoQI [(RInt 12, 1)] = Inl ValueError"
proof -
  have h: "(12::int) \<noteq> 0" "is_prime 2" "(2::int) * 2 dvd 12" "(RInt 12, 1) \<in> set [(RInt 12, 1::rat)]"
    by (simp_all add: is_prime_def)
  from non_square_free_rejected [OF h] h show ?thesis by simp
qed

text \<open>
  C7, as the claim states it: on the empty mapping \<^verbatim>\<open>inverse\<close> raises \<^verbatim>\<open>TypeError\<close>
  (from \<^verbatim>\<open>reduce\<close> on an empty iterable), not a division-by-zero error; \<^verbatim>\<open>/\<close> raises
  the same.
\<close>

theorem inverse_of_zero_not_division_error:
  "inverse_lcoqi ascending [] = Some (Inl TypeError)
   \<and> inverse_lcoqi ascending [] \<noteq> Some (Inl ZeroDivisionError)
   \<and> truediv ascending unit [] \<noteq> Some (Inl ZeroDivisionError)"
  by (simp add: inverse_empty truediv_empty)

text \<open>
  C7, amended. Inversion of the zero value (the empty mapping), and division by it, fail
  at once and for every iteration order with \<^verbatim>\<open>TypeError\<close>.
\<close>

theorem inverse_of_zero_raises_type_error:
  "inverse_lcoqi ord [] = Some (Inl TypeError) \<and> truediv ord a [] = Some (Inl TypeError)"
  by (simp add: inverse_empty truediv_empty)

text \<open>
  C8, at the input \<^verbatim>\<open>a = LCoQI({("+\<surd>", 1): 1, 1: -1})\<close> with \<open>m = 1\<close> and
  \<open>n = -1\<close>: \<^verbatim>\<open>a ** (m + n)\<close> is the rational unit and \<^verbatim>\<open>a ** m\<close> is \<open>a\<close>, but
  \<^verbatim>\<open>a ** n\<close> raises \<^verbatim>\<open>TypeError\<close>, and with it \<^verbatim>\<open>a ** m * a ** n\<close> and
  \<^verbatim>\<open>(a ** 1).inverse()\<close>. The cause is the one of C1: the square of \<^verbatim>\<open>("+\<surd>", 1)\<close> is
  computed as 1.
\<close>

theorem power_law_fails_on_nested_one:
  "pow ord [({|Nested 1|}, 1), ({||}, - 1)] (1 + (- 1)) = Some (Inr unit)
   \<and> pow ord [({|Nested 1|}, 1), ({||}, - 1)] 1 = Some (Inr [({|Nested 1|}, 1), ({||}, - 1)])
   \<and> pow ord [({|Nested 1|}, 1), ({||}, - 1)] (- 1) = Some (Inl TypeError)"
proof (intro conjI)
  have one: "pow_loop ord (Suc 0) unit [({|Nested 1|}, 1), ({||}, - 1)]
      = Inr [({|Nested 1|}, 1), ({||}, - 1)]"
    by (simp add: pow_loop_1 eval_simps additional_factor_1)
  show "pow ord [({|Nested 1|}, 1), ({||}, - 1)] (1 + (- 1)) = Some (Inr unit)"
    by (simp add: pow_def pow_loop_0)
  show "pow ord [({|Nested 1|}, 1), ({||}, - 1)] 1 = Some (Inr [({|Nested 1|}, 1), ({||}, - 1)])"
    by (simp add: pow_def one)
  show "pow ord [({|Nested 1|}, 1), ({||}, - 1)] (- 1) = Some (Inl TypeError)"
    by (simp add: pow_def one nested_one_inverse)
qed

text \<open>
  C9. The zero value renders as \<^verbatim>\<open>"0"\<close> and the rational unit as \<^verbatim>\<open>"1"\<close>. A term with
  coefficient exactly 1 whose key is not empty (its ints being at least 2, as primes are)
  renders as the text of the key alone, which is not empty: the coefficient's text is
  left out. A value of one term renders as that term, and every further term is joined
  with \<^verbatim>\<open>" + "\<close>.
\<close>

theorem plain_text_rendering:
  "str_lcoqi sr ord [] = ''0''
   \<and> str_lcoqi sr ord unit = ''1''
   \<and> (K \<noteq> {||} \<longrightarrow> (\<forall>p. Prime p |\<in>| K \<longrightarrow> 2 \<le> p) \<longrightarrow>
        str_term sr ord (K, 1) = root_to_str ord K \<and> root_to_str ord K \<noteq> [])
   \<and> str_lcoqi sr ord [t] = str_term sr ord t
   \<and> (a \<noteq> [] \<longrightarrow> str_lcoqi sr ord (t # a) = str_term sr ord t @ '' + '' @ str_lcoqi sr ord a)"
proof (intro conjI impI)
  show "str_lcoqi sr ord [] = ''0''" by (simp add: str_lcoqi_def)
  show "str_lcoqi sr ord unit = ''1''"
    by (simp add: str_lcoqi_def str_term_def unit_def root_to_str_empty)
  show "str_lcoqi sr ord [t] = str_term sr ord t" by (simp add: str_lcoqi_def)
next
  assume "K \<noteq> {||}" and "\<forall>p. Prime p |\<in>| K \<longrightarrow> 2 \<le> p"
  then have "root_to_str ord K \<noteq> []" by (rule root_to_str_nonempty)
  then show "str_term sr ord (K, 1) = root_to_str ord K" "root_to_str ord K \<noteq> []"
    by (simp_all add: str_term_def)
next
  assume "a \<noteq> []"
  then show "str_lcoqi sr ord (t # a) = str_term sr ord t @ '' + '' @ str_lcoqi sr ord a"
    by (rule str_lcoqi_cons)
qed

theorem plain_text_rendering_witness:
  "{|Prime 2|} \<noteq> {||} \<and> [({||}, 1 :: rat)] \<noteq> []
   \<and> root_to_str ascending {|Prime 2|} = sqrt_sign @ ''2''
   \<and> str_lcoqi (\<lambda>c. ''?'') ascending [({|Prime 2|}, 1), ({||}, 1)] = sqrt_sign @ ''2 + 1''
   \<and> str_lcoqi (\<lambda>c. ''?'') ascending [({|Prime 2|}, 3), ({||}, 1)] = ''?'' @ sqrt_sign @ ''2 + 1''"
proof -
  have r: "root_to_str ascending {|Prime 2|} = sqrt_sign @ ''2''"
    by (simp add: root_to_str_def str_int_2)
  have p: "\<forall>p. Prime p |\<in>| {|Prime 2|} \<longrightarrow> 2 \<le> p" by simp
  from plain_text_rendering [of "\<lambda>c. ''?''" ascending "{|Prime 2|}" "({|Prime 2|}, 1)" "[({||}, 1)]"]
    plain_text_rendering [of "\<lambda>c. ''?''" ascending "{|Prime 2|}" "({|Prime 2|}, 3)" "[({||}, 1)]"]
    p r
  show ?thesis by (simp add: unit_def str_term_def)
qed

text \<open>
  C10. When \<^verbatim>\<open>inverse\<close> does not take its first branch, the factors it conjugates are
  those of the union of the keys of the value it was called on: the union is computed
  once, before the loop, which then runs over that fixed list whatever factors the
  products bring in. The result is \<^verbatim>\<open>numerator / denominator\<close> of the loop's outcome, that
  is \<^verbatim>\<open>numerator * denominator.inverse()\<close>: a recursive call of \<^verbatim>\<open>inverse\<close>. The instance
  below is \<open>sqrt (2 + sqrt 2)\<close>: the loop conjugates \<open>Nested 2\<close> only, its denominator
  \<open>-2 - sqrt 2\<close> holds the new factor \<open>Prime 2\<close>, and the recursive call removes it.
\<close>

theorem inverse_conjugates_original_factors_once:
  assumes "\<not> (length a = 1 \<and> {||} \<in> fst ` set a)"
  shows "(a \<noteq> [] \<longrightarrow> (\<exists>roots. reduce_union (map fst a) = Inr roots))
       \<and> (\<forall>roots. reduce_union (map fst a) = Inr roots \<longrightarrow>
            (\<forall>r. r |\<in>| roots \<longleftrightarrow> (\<exists>t \<in> set a. r |\<in>| fst t))
            \<and> inverse_lcoqi ord a =
                (case foldM (conjugate_step ord) (iter ord roots) (unit, a) of
                   Inl e \<Rightarrow> Some (Inl e)
                 | Inr (numerator, denominator) \<Rightarrow> truediv ord numerator denominator))"
proof (intro conjI allI impI)
  assume "a \<noteq> []"
  then show "\<exists>roots. reduce_union (map fst a) = Inr roots" by (cases a) auto
next
  fix roots r assume "reduce_union (map fst a) = Inr roots"
  then show "r |\<in>| roots \<longleftrightarrow> (\<exists>t \<in> set a. r |\<in>| fst t)"
    using reduce_union_mem [of "map fst a" roots r] by auto
next
  fix roots assume "reduce_union (map fst a) = Inr roots"
  with assms show "inverse_lcoqi ord a =
      (case foldM (conjugate_step ord) (iter ord roots) (unit, a) of
         Inl e \<Rightarrow> Some (Inl e)
       | Inr (numerator, denominator) \<Rightarrow> truediv ord numerator denominator)"
    by (rule inverse_general)
qed

theorem inverse_conjugates_original_factors_once_witness:
  "\<not> (length [({|Nested 2|}, 1 :: rat)] = 1 \<and> {||} \<in> fst ` set [({|Nested 2|}, 1 :: rat)])
   \<and> reduce_union (map fst [({|Nested 2|}, 1 :: rat)]) = Inr {|Nested 2|}
   \<and> foldM (conjugate_step ascending) (iter ascending {|Nested 2|}) (unit, [({|Nested 2|}, 1)])
       = Inr ([({|Nested 2|}, - 1)], [({||}, - 2), ({|Prime 2|}, - 1)])
   \<and> inverse_lcoqi ascending [({|Nested 2|}, 1)]
       = truediv ascending [({|Nested 2|}, - 1)] [({||}, - 2), ({|Prime 2|}, - 1)]
   \<and> inverse_lcoqi ascending [({|Nested 2|}, 1)]
       = Some (Inr [({|Nested 2|}, 1), ({|Nested 2, Prime 2|}, - 1 / 2)])"
proof -
  have h: "\<not> (length [({|Nested 2|}, 1 :: rat)] = 1 \<and> {||} \<in> fst ` set [({|Nested 2|}, 1 :: rat)])"
    by (simp add: key_simps)
  have u: "reduce_union (map fst [({|Nested 2|}, 1 :: rat)]) = Inr {|Nested 2|}" by simp
  have l: "foldM (conjugate_step ascending) (iter ascending {|Nested 2|}) (unit, [({|Nested 2|}, 1)])
      = Inr ([({|Nested 2|}, - 1)], [({||}, - 2), ({|Prime 2|}, - 1)])"
    by (simp add: nested_two_step)
  from inverse_conjugates_original_factors_once [OF h, of ascending] u
  have "inverse_lcoqi ascending [({|Nested 2|}, 1)] =
      (case foldM (conjugate_step ascending) (iter ascending {|Nested 2|}) (unit, [({|Nested 2|}, 1)]) of
         Inl e \<Rightarrow> Some (Inl e)
       | Inr (numerator, denominator) \<Rightarrow> truediv ascending numerator denominator)"
    by blast
  then have i: "inverse_lcoqi ascending [({|Nested 2|}, 1)]
      = truediv ascending [({|Nested 2|}, - 1)] [({||}, - 2), ({|Prime 2|}, - 1)]"
    by (simp only: l sum.case prod.case)
  from h u l i nested_two_division [of ascending] show ?thesis by simp
qed

end
